theory Spec2Isabelle
  imports Main "HOL-Library.Word"
begin

section \<open>The V4L2 M2M format converter (converter\_v4l2\_m2m.cpp)\<close>

text \<open>
  The converter owns one \<open>Stream\<close> per configured output. Every stream drives one
  V4L2 memory-to-memory device with two queues: the V4L2 \<^emph>\<open>output\<close> queue, which is the
  converter's input side, and the V4L2 \<^emph>\<open>capture\<close> queue, which is the converter's output
  side. The member names of the source end in an underscore (\<open>streams_\<close>, \<open>queue_\<close>,
  \<open>m2m_\<close>, \<open>index_\<close>); such names are not accepted for constants, so the underscore is
  dropped here.
\<close>

subsection \<open>Values\<close>

text \<open>A \<open>FrameBuffer *\<close> is an address; the null pointer is address 0.\<close>

type_synonym FrameBuffer = nat

definition nullptr :: FrameBuffer where
  "nullptr = 0"

definition EINVAL :: int where
  "EINVAL = 22"

type_synonym PixelFormat = nat
type_synonym V4L2PixelFormat = nat
type_synonym Size = "nat \<times> nat"

record StreamConfiguration =
  pixelFormat :: PixelFormat
  cfgSize :: Size
  stride :: nat
  bufferCount :: nat

text \<open>\<open>V4L2DeviceFormat\<close>, with \<open>planes[0].bpl\<close> as the field \<open>bpl0\<close>.\<close>

record V4L2DeviceFormat =
  fourcc :: V4L2PixelFormat
  fmtSize :: Size
  planesCount :: nat
  bpl0 :: nat

subsection \<open>The hardware\<close>

text \<open>
  The V4L2 device classes are not part of the converter. Every call the converter makes on
  a device is recorded, in order, in a log; what a call returns is a parameter of the
  model and may depend on everything that was called before.
\<close>

datatype queue_side = OutputQ | CaptureQ

datatype hw_call =
    M2MOpen nat
  | SetFormat nat queue_side V4L2DeviceFormat
  | ImportBuffers nat queue_side nat
  | StreamOn nat queue_side
  | StreamOff nat queue_side
  | ReleaseBuffers nat queue_side
  | QueueBuffer nat queue_side FrameBuffer

type_synonym hwlog = "hw_call list"

record hardware =
  hw_ret :: "hwlog \<Rightarrow> hw_call \<Rightarrow> int"
  hw_negotiated :: "hwlog \<Rightarrow> hw_call \<Rightarrow> V4L2DeviceFormat"
  toV4L2PixelFormat :: "queue_side \<Rightarrow> PixelFormat \<Rightarrow> V4L2PixelFormat"

text \<open>The stream index a hardware call is addressed to.\<close>

fun call_index :: "hw_call \<Rightarrow> nat" where
  "call_index (M2MOpen i) = i"
| "call_index (SetFormat i _ _) = i"
| "call_index (ImportBuffers i _ _) = i"
| "call_index (StreamOn i _) = i"
| "call_index (StreamOff i _) = i"
| "call_index (ReleaseBuffers i _) = i"
| "call_index (QueueBuffer i _ _) = i"

text \<open>
  Modelled from the spec: the state of a \<open>V4L2VideoDevice\<close> queue (v4l2\_videodevice.cpp is
  not among the sources). A queue is active or not and holds a number of imported buffer
  registrations; importing registers the given count, activating makes the queue active,
  deactivating makes it inactive and releasing drops all registrations.
\<close>

record V4L2VideoDevice =
  streaming :: bool
  registered :: nat

record V4L2M2MDevice =
  outputDev :: V4L2VideoDevice
  captureDev :: V4L2VideoDevice

definition dev_closed :: V4L2VideoDevice where
  "dev_closed = \<lparr>streaming = False, registered = 0\<rparr>"

definition m2m_fresh :: V4L2M2MDevice where
  "m2m_fresh = \<lparr>outputDev = dev_closed, captureDev = dev_closed\<rparr>"

definition dev_importBuffers :: "nat \<Rightarrow> V4L2VideoDevice \<Rightarrow> V4L2VideoDevice" where
  "dev_importBuffers count d = d\<lparr>registered := count\<rparr>"

definition dev_streamOn :: "V4L2VideoDevice \<Rightarrow> V4L2VideoDevice" where
  "dev_streamOn d = d\<lparr>streaming := True\<rparr>"

definition dev_streamOff :: "V4L2VideoDevice \<Rightarrow> V4L2VideoDevice" where
  "dev_streamOff d = d\<lparr>streaming := False\<rparr>"

definition dev_releaseBuffers :: "V4L2VideoDevice \<Rightarrow> V4L2VideoDevice" where
  "dev_releaseBuffers d = d\<lparr>registered := 0\<rparr>"

text \<open>Applying a device operation to one queue of an M2M device.\<close>

definition on_output :: "(V4L2VideoDevice \<Rightarrow> V4L2VideoDevice) \<Rightarrow> V4L2M2MDevice option \<Rightarrow> V4L2M2MDevice option" where
  "on_output f m = map_option (\<lambda>d. d\<lparr>outputDev := f (outputDev d)\<rparr>) m"

definition on_capture :: "(V4L2VideoDevice \<Rightarrow> V4L2VideoDevice) \<Rightarrow> V4L2M2MDevice option \<Rightarrow> V4L2M2MDevice option" where
  "on_capture f m = map_option (\<lambda>d. d\<lparr>captureDev := f (captureDev d)\<rparr>) m"

subsection \<open>V4L2M2MConverter::Stream\<close>

text \<open>
  \<open>m2m\<close> is \<open>None\<close> after \<open>m2m_.reset()\<close>. The member functions dereference \<open>m2m_\<close>
  without a check; the converter keeps only streams whose device opened (see
  \<open>configure\<close>), and for such streams the functions below are the source's. The two
  buffer counts are not initialised by the constructor and are written by \<open>configure\<close>
  before they are read; they start as 0 here.
\<close>

record Stream =
  index :: nat
  m2m :: "V4L2M2MDevice option"
  inputBufferCount :: nat
  outputBufferCount :: nat

definition Stream_new :: "hardware \<Rightarrow> nat \<Rightarrow> hwlog \<Rightarrow> Stream \<times> hwlog" where
  "Stream_new hw i log =
     (let ret = hw_ret hw log (M2MOpen i) in
      (\<lparr>index = i, m2m = (if ret < 0 then None else Some m2m_fresh),
        inputBufferCount = 0, outputBufferCount = 0\<rparr>,
       log @ [M2MOpen i]))"

definition isValid :: "Stream \<Rightarrow> bool" where
  "isValid s = (m2m s \<noteq> None)"

definition Stream_configure ::
  "hardware \<Rightarrow> Stream \<Rightarrow> StreamConfiguration \<Rightarrow> StreamConfiguration \<Rightarrow> hwlog \<Rightarrow> int \<times> Stream \<times> hwlog" where
  "Stream_configure hw s inputCfg outputCfg log =
     (let videoFormat = toV4L2PixelFormat hw OutputQ (pixelFormat inputCfg);
          format = \<lparr>fourcc = videoFormat, fmtSize = cfgSize inputCfg,
                    planesCount = 1, bpl0 = stride inputCfg\<rparr>;
          call1 = SetFormat (index s) OutputQ format;
          ret = hw_ret hw log call1;
          format1 = hw_negotiated hw log call1;
          log1 = log @ [call1]
      in if ret < 0 then (ret, s, log1)
         else if fourcc format1 \<noteq> videoFormat \<or> fmtSize format1 \<noteq> cfgSize inputCfg \<or>
                 bpl0 format1 \<noteq> stride inputCfg
         then (- EINVAL, s, log1)
         else
           let videoFormat2 = toV4L2PixelFormat hw CaptureQ (pixelFormat outputCfg);
               format2 = \<lparr>fourcc = videoFormat2, fmtSize = cfgSize outputCfg,
                          planesCount = 0, bpl0 = 0\<rparr>;
               call2 = SetFormat (index s) CaptureQ format2;
               ret2 = hw_ret hw log1 call2;
               format3 = hw_negotiated hw log1 call2;
               log2 = log1 @ [call2]
           in if ret2 < 0 then (ret2, s, log2)
              else if fourcc format3 \<noteq> videoFormat2 \<or> fmtSize format3 \<noteq> cfgSize outputCfg
              then (- EINVAL, s, log2)
              else (0, s\<lparr>inputBufferCount := bufferCount inputCfg,
                          outputBufferCount := bufferCount outputCfg\<rparr>, log2))"

definition Stream_stop :: "Stream \<Rightarrow> hwlog \<Rightarrow> Stream \<times> hwlog" where
  "Stream_stop s log =
     (s\<lparr>m2m := on_output dev_releaseBuffers (on_capture dev_releaseBuffers
                 (on_output dev_streamOff (on_capture dev_streamOff (m2m s))))\<rparr>,
      log @ [StreamOff (index s) CaptureQ, StreamOff (index s) OutputQ,
             ReleaseBuffers (index s) CaptureQ, ReleaseBuffers (index s) OutputQ])"

definition Stream_start :: "hardware \<Rightarrow> Stream \<Rightarrow> hwlog \<Rightarrow> int \<times> Stream \<times> hwlog" where
  "Stream_start hw s log =
     (let call1 = ImportBuffers (index s) OutputQ (inputBufferCount s);
          ret1 = hw_ret hw log call1;
          log1 = log @ [call1]
      in if ret1 < 0 then (ret1, s, log1)
         else
           let s1 = s\<lparr>m2m := on_output (dev_importBuffers (inputBufferCount s)) (m2m s)\<rparr>;
               call2 = ImportBuffers (index s) CaptureQ (outputBufferCount s);
               ret2 = hw_ret hw log1 call2;
               log2 = log1 @ [call2]
           in if ret2 < 0 then (ret2, Stream_stop s1 log2)
              else
                let s2 = s1\<lparr>m2m := on_capture (dev_importBuffers (outputBufferCount s)) (m2m s1)\<rparr>;
                    call3 = StreamOn (index s) OutputQ;
                    ret3 = hw_ret hw log2 call3;
                    log3 = log2 @ [call3]
                in if ret3 < 0 then (ret3, Stream_stop s2 log3)
                   else
                     let s3 = s2\<lparr>m2m := on_output dev_streamOn (m2m s2)\<rparr>;
                         call4 = StreamOn (index s) CaptureQ;
                         ret4 = hw_ret hw log3 call4;
                         log4 = log3 @ [call4]
                     in if ret4 < 0 then (ret4, Stream_stop s3 log4)
                        else (0, s3\<lparr>m2m := on_capture dev_streamOn (m2m s3)\<rparr>, log4))"

definition Stream_queueBuffers ::
  "hardware \<Rightarrow> Stream \<Rightarrow> FrameBuffer \<Rightarrow> FrameBuffer \<Rightarrow> hwlog \<Rightarrow> int \<times> hwlog" where
  "Stream_queueBuffers hw s input outbuf log =
     (let call1 = QueueBuffer (index s) OutputQ input;
          ret = hw_ret hw log call1;
          log1 = log @ [call1]
      in if ret < 0 then (ret, log1)
         else
           let call2 = QueueBuffer (index s) CaptureQ outbuf;
               ret2 = hw_ret hw log1 call2;
               log2 = log1 @ [call2]
           in if ret2 < 0 then (ret2, log2) else (0, log2))"

text \<open>
  Names for the hardware calls the stream functions make, used to state what they do: the
  two format requests of \<open>configure\<close>, the four steps of \<open>start\<close> and the four calls of
  \<open>stop\<close>.
\<close>

definition input_request :: "hardware \<Rightarrow> Stream \<Rightarrow> StreamConfiguration \<Rightarrow> hw_call" where
  "input_request hw s inputCfg =
     SetFormat (index s) OutputQ
       \<lparr>fourcc = toV4L2PixelFormat hw OutputQ (pixelFormat inputCfg),
        fmtSize = cfgSize inputCfg, planesCount = 1, bpl0 = stride inputCfg\<rparr>"

definition output_request :: "hardware \<Rightarrow> Stream \<Rightarrow> StreamConfiguration \<Rightarrow> hw_call" where
  "output_request hw s outputCfg =
     SetFormat (index s) CaptureQ
       \<lparr>fourcc = toV4L2PixelFormat hw CaptureQ (pixelFormat outputCfg),
        fmtSize = cfgSize outputCfg, planesCount = 0, bpl0 = 0\<rparr>"

definition start_calls :: "Stream \<Rightarrow> hw_call list" where
  "start_calls s =
     [ImportBuffers (index s) OutputQ (inputBufferCount s),
      ImportBuffers (index s) CaptureQ (outputBufferCount s),
      StreamOn (index s) OutputQ, StreamOn (index s) CaptureQ]"

definition stop_calls :: "Stream \<Rightarrow> hw_call list" where
  "stop_calls s =
     [StreamOff (index s) CaptureQ, StreamOff (index s) OutputQ,
      ReleaseBuffers (index s) CaptureQ, ReleaseBuffers (index s) OutputQ]"

text \<open>The stream left by \<open>stop\<close>, whatever the log.\<close>

definition stopped :: "Stream \<Rightarrow> Stream" where
  "stopped s = fst (Stream_stop s [])"

text \<open>The stream left by a \<open>start\<close> whose four steps succeed.\<close>

definition started :: "Stream \<Rightarrow> Stream" where
  "started s =
     s\<lparr>m2m := map_option
            (\<lambda>d. \<lparr>outputDev = \<lparr>streaming = True, registered = inputBufferCount s\<rparr>,
                  captureDev = \<lparr>streaming = True, registered = outputBufferCount s\<rparr>\<rparr>)
            (m2m s)\<rparr>"

text \<open>The results of the four steps of \<open>start\<close>, each at the log its call is made at.\<close>

definition start_ret :: "hardware \<Rightarrow> Stream \<Rightarrow> hwlog \<Rightarrow> nat \<Rightarrow> int" where
  "start_ret hw s log k = hw_ret hw (log @ take k (start_calls s)) (start_calls s ! k)"

subsection \<open>V4L2M2MConverter\<close>

text \<open>
  \<open>queue\<close> is \<open>std::map<FrameBuffer *, unsigned int> queue_\<close>. \<open>emitted\<close> lists, in
  order, the signals the converter has emitted to its owner; \<open>hwlog\<close> lists the calls it
  has made on the hardware.
\<close>

datatype signal = InputBufferReady FrameBuffer | OutputBufferReady FrameBuffer

record V4L2M2MConverter =
  streams :: "Stream list"
  queue :: "FrameBuffer \<rightharpoonup> 32 word"
  emitted :: "signal list"
  hwlog :: hwlog

definition converter_new :: V4L2M2MConverter where
  "converter_new = \<lparr>streams = [], queue = Map.empty, emitted = [], hwlog = []\<rparr>"

text \<open>
  The body of the loop of \<open>configure\<close> for the output configuration at index \<open>i\<close>: the
  stream is created, and configured when its device opened. The result is \<open>ret\<close> as the
  body leaves it; the loop is left exactly when it is negative.
\<close>

definition configure_body ::
  "hardware \<Rightarrow> StreamConfiguration \<Rightarrow> StreamConfiguration \<Rightarrow> nat \<Rightarrow> hwlog \<Rightarrow> int \<times> Stream \<times> hwlog" where
  "configure_body hw inputCfg outputCfg i log =
     (case Stream_new hw i log of (stream, log1) \<Rightarrow>
        if \<not> isValid stream then (- EINVAL, stream, log1)
        else Stream_configure hw stream inputCfg outputCfg log1)"

text \<open>
  The loop of \<open>configure\<close>, \<open>for (unsigned int i = 0; i < outputCfgs.size(); ++i)\<close>: \<open>i\<close> is
  the 32-bit loop counter, which wraps, \<open>ss\<close> the vector built so far. The comparison is
  made in \<open>size_t\<close>, so for a vector of \<open>2^32\<close> or more configurations the counter wraps
  before the test fails and the loop is left only by a failing body; the result \<open>None\<close>
  stands for a loop that is never left. Otherwise the result is \<open>ret\<close> at the exit of the
  loop together with the vector and the log.
\<close>

partial_function (option) configure_loop ::
  "hardware \<Rightarrow> StreamConfiguration \<Rightarrow> StreamConfiguration list \<Rightarrow> 32 word \<Rightarrow> Stream list \<Rightarrow> hwlog
     \<Rightarrow> (int \<times> Stream list \<times> hwlog) option" where
  "configure_loop hw inputCfg outputCfgs i ss log =
     (if unat i < length outputCfgs then
        (case configure_body hw inputCfg (outputCfgs ! unat i) (unat i) log of
           (ret, stream, log1) \<Rightarrow>
             if ret < 0 then Some (ret, ss @ [stream], log1)
             else configure_loop hw inputCfg outputCfgs (i + 1) (ss @ [stream]) log1)
      else Some (0, ss, log))"

definition configure ::
  "hardware \<Rightarrow> V4L2M2MConverter \<Rightarrow> StreamConfiguration \<Rightarrow> StreamConfiguration list
     \<Rightarrow> (int \<times> V4L2M2MConverter) option" where
  "configure hw c inputCfg outputCfgs =
     (case configure_loop hw inputCfg outputCfgs 0 [] (hwlog c) of
        None \<Rightarrow> None
      | Some (ret, ss, log) \<Rightarrow>
          if ret < 0 then Some (ret, c\<lparr>streams := [], hwlog := log\<rparr>)
          else Some (0, c\<lparr>streams := ss, hwlog := log\<rparr>))"

text \<open>
  The iterations of the loop over the configurations that are left, with the counter as a
  natural number. It is used to reason about \<open>configure_loop\<close>, with which it agrees on
  every vector shorter than \<open>2^32\<close> (lemma \<open>configure_loop_iter\<close>).
\<close>

fun configure_iter ::
  "hardware \<Rightarrow> StreamConfiguration \<Rightarrow> StreamConfiguration list \<Rightarrow> nat \<Rightarrow> Stream list \<Rightarrow> hwlog
     \<Rightarrow> int \<times> Stream list \<times> hwlog" where
  "configure_iter hw inputCfg [] i ss log = (0, ss, log)"
| "configure_iter hw inputCfg (outputCfg # rest) i ss log =
     (case configure_body hw inputCfg outputCfg i log of (ret, stream, log1) \<Rightarrow>
        if ret < 0 then (ret, ss @ [stream], log1)
        else configure_iter hw inputCfg rest (Suc i) (ss @ [stream]) log1)"

text \<open>\<open>stop\<close> walks \<open>utils::reverse(streams_)\<close>; \<open>stop_loop\<close> is given the reversed vector.\<close>

fun stop_loop :: "Stream list \<Rightarrow> hwlog \<Rightarrow> Stream list \<times> hwlog" where
  "stop_loop [] log = ([], log)"
| "stop_loop (s # rest) log =
     (case Stream_stop s log of (s', log1) \<Rightarrow>
        case stop_loop rest log1 of (rest', log2) \<Rightarrow> (s' # rest', log2))"

definition stop :: "V4L2M2MConverter \<Rightarrow> V4L2M2MConverter" where
  "stop c =
     (case stop_loop (rev (streams c)) (hwlog c) of (rs, log) \<Rightarrow>
        c\<lparr>streams := rev rs, hwlog := log\<rparr>)"

text \<open>
  The loop of \<open>start\<close>: \<open>done\<close> are the streams already started, the second list those still
  to start. On a failure the loop is left with the vector as it stands.
\<close>

fun start_loop :: "hardware \<Rightarrow> Stream list \<Rightarrow> Stream list \<Rightarrow> hwlog \<Rightarrow> int \<times> Stream list \<times> hwlog" where
  "start_loop hw done [] log = (0, done, log)"
| "start_loop hw done (s # rest) log =
     (case Stream_start hw s log of (ret, s', log1) \<Rightarrow>
        if ret < 0 then (ret, done @ s' # rest, log1)
        else start_loop hw (done @ [s']) rest log1)"

definition start :: "hardware \<Rightarrow> V4L2M2MConverter \<Rightarrow> int \<times> V4L2M2MConverter" where
  "start hw c =
     (case start_loop hw [] (streams c) (hwlog c) of (ret, ss, log) \<Rightarrow>
        if ret < 0 then (ret, stop (c\<lparr>streams := ss, hwlog := log\<rparr>))
        else (0, c\<lparr>streams := ss, hwlog := log\<rparr>))"

text \<open>
  \<open>outputs\<close> is a \<open>std::map<unsigned int, FrameBuffer *>\<close>, given as the list of its
  entries in iteration order (ascending keys). The first loop of \<open>queueBuffers\<close> returns
  \<open>None\<close> where the source returns \<open>-EINVAL\<close>, and the set \<open>outputBufs\<close> otherwise.
\<close>

fun validate_loop :: "nat \<Rightarrow> (nat \<times> FrameBuffer) list \<Rightarrow> FrameBuffer set \<Rightarrow> FrameBuffer set option" where
  "validate_loop n [] outputBufs = Some outputBufs"
| "validate_loop n ((idx, buffer) # rest) outputBufs =
     (if buffer = nullptr then None
      else if idx \<ge> n then None
      else validate_loop n rest (insert buffer outputBufs))"

fun queue_loop ::
  "hardware \<Rightarrow> Stream list \<Rightarrow> FrameBuffer \<Rightarrow> (nat \<times> FrameBuffer) list \<Rightarrow> hwlog \<Rightarrow> int \<times> hwlog" where
  "queue_loop hw ss input [] log = (0, log)"
| "queue_loop hw ss input ((idx, buffer) # rest) log =
     (case Stream_queueBuffers hw (ss ! idx) input buffer log of (ret, log1) \<Rightarrow>
        if ret < 0 then (ret, log1) else queue_loop hw ss input rest log1)"

text \<open>\<open>std::map::emplace\<close>: nothing is stored when the key is already present.\<close>

definition emplace :: "('k \<rightharpoonup> 'v) \<Rightarrow> 'k \<Rightarrow> 'v \<Rightarrow> ('k \<rightharpoonup> 'v)" where
  "emplace m k v = (if m k = None then m(k \<mapsto> v) else m)"

definition queueBuffers ::
  "hardware \<Rightarrow> V4L2M2MConverter \<Rightarrow> FrameBuffer \<Rightarrow> (nat \<times> FrameBuffer) list \<Rightarrow> int \<times> V4L2M2MConverter" where
  "queueBuffers hw c input outputs =
     (if outputs = [] then (- EINVAL, c)
      else case validate_loop (length (streams c)) outputs {} of
             None \<Rightarrow> (- EINVAL, c)
           | Some outputBufs \<Rightarrow>
               if card outputBufs \<noteq> length (streams c) then (- EINVAL, c)
               else (case queue_loop hw (streams c) input outputs (hwlog c) of (ret, log) \<Rightarrow>
                       if ret < 0 then (ret, c\<lparr>hwlog := log\<rparr>)
                       else (0, c\<lparr>queue := emplace (queue c) input (of_nat (length outputs)),
                                  hwlog := log\<rparr>)))"

text \<open>The requests that get past the validation at the head of \<open>queueBuffers\<close>.\<close>

definition accepted :: "V4L2M2MConverter \<Rightarrow> (nat \<times> FrameBuffer) list \<Rightarrow> bool" where
  "accepted c outputs =
     (outputs \<noteq> [] \<and>
      (case validate_loop (length (streams c)) outputs {} of
         None \<Rightarrow> False
       | Some outputBufs \<Rightarrow> card outputBufs = length (streams c)))"

subsection \<open>Signals and the owner's slots\<close>

text \<open>
  The converter's two signals are delivered synchronously: \<open>emit\<close> calls the slots the
  owner has connected and returns when they have returned. What the owner does in a slot
  is a parameter of the model: a list of calls of the converter's public functions, chosen
  from the converter as it is at that moment and from the signal. A call of \<open>configure\<close>
  that does not return leaves nothing to go on with; this is the result \<open>None\<close>.
\<close>

datatype call =
    Configure StreamConfiguration "StreamConfiguration list"
  | Start
  | Stop
  | QueueBuffers FrameBuffer "(nat \<times> FrameBuffer) list"

type_synonym owner = "V4L2M2MConverter \<Rightarrow> signal \<Rightarrow> call list"

fun perform :: "hardware \<Rightarrow> V4L2M2MConverter \<Rightarrow> call \<Rightarrow> V4L2M2MConverter option" where
  "perform hw c (Configure inputCfg outputCfgs) = map_option snd (configure hw c inputCfg outputCfgs)"
| "perform hw c Start = Some (snd (start hw c))"
| "perform hw c Stop = Some (stop c)"
| "perform hw c (QueueBuffers input outputs) = Some (snd (queueBuffers hw c input outputs))"

fun perform_all :: "hardware \<Rightarrow> V4L2M2MConverter \<Rightarrow> call list \<Rightarrow> V4L2M2MConverter option" where
  "perform_all hw c [] = Some c"
| "perform_all hw c (x # xs) =
     (case perform hw c x of None \<Rightarrow> None | Some c' \<Rightarrow> perform_all hw c' xs)"

definition emit :: "owner \<Rightarrow> hardware \<Rightarrow> V4L2M2MConverter \<Rightarrow> signal \<Rightarrow> V4L2M2MConverter option" where
  "emit owner hw c sig =
     perform_all hw (c\<lparr>emitted := emitted c @ [sig]\<rparr>) (owner (c\<lparr>emitted := emitted c @ [sig]\<rparr>) sig)"

text \<open>
  The two slots of a stream. They use the stream only to reach its converter, so they are
  functions of the converter. \<open>--it->second\<close> is a decrement of an \<open>unsigned int\<close>, stored
  in the entry; when it gives 0, \<open>inputBufferReady\<close> is emitted first, with the entry
  still in \<open>queue\<close>, and the entry is erased after the owner's slot has returned.
\<close>

definition Stream_outputBufferReady ::
  "owner \<Rightarrow> hardware \<Rightarrow> V4L2M2MConverter \<Rightarrow> FrameBuffer \<Rightarrow> V4L2M2MConverter option" where
  "Stream_outputBufferReady owner hw c buffer =
     (case queue c buffer of
        None \<Rightarrow> Some c
      | Some n \<Rightarrow>
          if n - 1 = 0
          then (case emit owner hw (c\<lparr>queue := (queue c)(buffer \<mapsto> n - 1)\<rparr>)
                       (InputBufferReady buffer) of
                  None \<Rightarrow> None
                | Some c' \<Rightarrow> Some (c'\<lparr>queue := (queue c')(buffer := None)\<rparr>))
          else Some (c\<lparr>queue := (queue c)(buffer \<mapsto> n - 1)\<rparr>))"

definition Stream_captureBufferReady ::
  "owner \<Rightarrow> hardware \<Rightarrow> V4L2M2MConverter \<Rightarrow> FrameBuffer \<Rightarrow> V4L2M2MConverter option" where
  "Stream_captureBufferReady owner hw c buffer = emit owner hw c (OutputBufferReady buffer)"

subsection \<open>Runs of the converter\<close>

text \<open>
  What can happen to a converter: its owner calls one of the public functions, or a stream
  receives \<open>bufferReady\<close> from its V4L2 output queue (\<open>BufferReadyOutput\<close>, the stream's
  share of an input buffer is done) or from its V4L2 capture queue
  (\<open>BufferReadyCapture\<close>, an output buffer is ready). All of it is dispatched on one
  thread, one event after the other; a run is \<open>None\<close> when one of its calls of
  \<open>configure\<close> does not return.
\<close>

datatype action =
    Call call
  | BufferReadyOutput FrameBuffer
  | BufferReadyCapture FrameBuffer

fun step :: "owner \<Rightarrow> hardware \<Rightarrow> V4L2M2MConverter \<Rightarrow> action \<Rightarrow> V4L2M2MConverter option" where
  "step owner hw c (Call x) = perform hw c x"
| "step owner hw c (BufferReadyOutput buffer) = Stream_outputBufferReady owner hw c buffer"
| "step owner hw c (BufferReadyCapture buffer) = Stream_captureBufferReady owner hw c buffer"

fun run :: "owner \<Rightarrow> hardware \<Rightarrow> V4L2M2MConverter \<Rightarrow> action list \<Rightarrow> V4L2M2MConverter option" where
  "run owner hw c [] = Some c"
| "run owner hw c (a # acts) =
     (case step owner hw c a of None \<Rightarrow> None | Some c' \<Rightarrow> run owner hw c' acts)"

text \<open>
  The arguments of the calls that the theorems about runs consider: a vector of output
  configurations is shorter than \<open>2^32\<close>, and the entries of a \<open>std::map\<close> come in
  strictly ascending key order.
\<close>

fun wf_call :: "call \<Rightarrow> bool" where
  "wf_call (Configure inputCfg outputCfgs) = (length outputCfgs < 2 ^ 32)"
| "wf_call (QueueBuffers input outputs) = sorted_wrt (<) (map fst outputs)"
| "wf_call _ = True"

fun wf_action :: "action \<Rightarrow> bool" where
  "wf_action (Call x) = wf_call x"
| "wf_action _ = True"

definition wf_owner :: "owner \<Rightarrow> bool" where
  "wf_owner owner = (\<forall>c sig. list_all wf_call (owner c sig))"

text \<open>How often an entry for \<open>b\<close> is inserted into \<open>queue\<close> in the course of a run.\<close>

fun insertions :: "owner \<Rightarrow> hardware \<Rightarrow> V4L2M2MConverter \<Rightarrow> action list \<Rightarrow> FrameBuffer \<Rightarrow> nat" where
  "insertions owner hw c [] b = 0"
| "insertions owner hw c (a # acts) b =
     (case step owner hw c a of
        None \<Rightarrow> 0
      | Some c' \<Rightarrow>
          (if queue c b = None \<and> queue c' b \<noteq> None then 1 else 0)
          + insertions owner hw c' acts b)"

text \<open>How often the input-consumed signal for \<open>b\<close> has been emitted.\<close>

definition consumed_count :: "V4L2M2MConverter \<Rightarrow> FrameBuffer \<Rightarrow> nat" where
  "consumed_count c b = count_list (emitted c) (InputBufferReady b)"

text \<open>1 when \<open>b\<close> has an entry in \<open>queue\<close>, else 0.\<close>

definition live :: "V4L2M2MConverter \<Rightarrow> FrameBuffer \<Rightarrow> nat" where
  "live c b = (if queue c b = None then 0 else 1)"


text \<open>
  The calls and actions other than a \<open>queueBuffers\<close> call with the input buffer \<open>b\<close>, and
  the owners that make no such call in a slot.
\<close>

fun call_not_queueing :: "FrameBuffer \<Rightarrow> call \<Rightarrow> bool" where
  "call_not_queueing b (QueueBuffers input outputs) = (input \<noteq> b)"
| "call_not_queueing b _ = True"

fun not_queueing :: "FrameBuffer \<Rightarrow> action \<Rightarrow> bool" where
  "not_queueing b (Call x) = call_not_queueing b x"
| "not_queueing b _ = True"

definition owner_not_queueing :: "FrameBuffer \<Rightarrow> owner \<Rightarrow> bool" where
  "owner_not_queueing b owner = (\<forall>c sig. list_all (call_not_queueing b) (owner c sig))"

subsection \<open>Example hardware and configurations\<close>

text \<open>
  A device on which every call succeeds and every requested format is applied unchanged,
  and variants of it that fail one kind of call.
\<close>

fun requested :: "hw_call \<Rightarrow> V4L2DeviceFormat" where
  "requested (SetFormat i q f) = f"
| "requested _ = \<lparr>fourcc = 0, fmtSize = (0, 0), planesCount = 0, bpl0 = 0\<rparr>"

definition hw_ok :: hardware where
  "hw_ok = \<lparr>hw_ret = (\<lambda>log call. 0), hw_negotiated = (\<lambda>log call. requested call),
            toV4L2PixelFormat = (\<lambda>q p. p)\<rparr>"

definition hw_failing :: "(hw_call \<Rightarrow> bool) \<Rightarrow> hardware" where
  "hw_failing bad = hw_ok\<lparr>hw_ret := (\<lambda>log call. if bad call then - 5 else 0)\<rparr>"

definition hw_adjusting :: "(queue_side \<Rightarrow> V4L2DeviceFormat \<Rightarrow> V4L2DeviceFormat) \<Rightarrow> hardware" where
  "hw_adjusting adj =
     hw_ok\<lparr>hw_negotiated := (\<lambda>log call. case call of SetFormat i q f \<Rightarrow> adj q f
                                          | _ \<Rightarrow> requested call)\<rparr>"

definition cfg_in :: StreamConfiguration where
  "cfg_in = \<lparr>pixelFormat = 1, cfgSize = (640, 480), stride = 1280, bufferCount = 4\<rparr>"

definition cfg_out0 :: StreamConfiguration where
  "cfg_out0 = \<lparr>pixelFormat = 2, cfgSize = (640, 480), stride = 0, bufferCount = 4\<rparr>"

definition cfg_out1 :: StreamConfiguration where
  "cfg_out1 = \<lparr>pixelFormat = 3, cfgSize = (320, 240), stride = 0, bufferCount = 2\<rparr>"

definition stream_cfgd :: "nat \<Rightarrow> StreamConfiguration \<Rightarrow> Stream" where
  "stream_cfgd i outputCfg =
     \<lparr>index = i, m2m = Some m2m_fresh, inputBufferCount = bufferCount cfg_in,
      outputBufferCount = bufferCount outputCfg\<rparr>"

text \<open>A converter with two configured streams, nothing queued and no call logged.\<close>

definition conv2 :: V4L2M2MConverter where
  "conv2 = \<lparr>streams = [stream_cfgd 0 cfg_out0, stream_cfgd 1 cfg_out1], queue = Map.empty,
            emitted = [], hwlog = []\<rparr>"

text \<open>
  \<open>conv2\<close> after input buffer 7 was queued with the output buffers 8 and 9, and after one
  of the two streams has then reported its share of buffer 7 done.
\<close>

definition conv2_queued :: V4L2M2MConverter where
  "conv2_queued =
     conv2\<lparr>queue := [7 \<mapsto> 2],
           hwlog := [QueueBuffer 0 OutputQ 7, QueueBuffer 0 CaptureQ 8,
                     QueueBuffer 1 OutputQ 7, QueueBuffer 1 CaptureQ 9]\<rparr>"

definition conv2_half :: V4L2M2MConverter where
  "conv2_half = conv2_queued\<lparr>queue := [7 \<mapsto> 1]\<rparr>"

text \<open>
  An owner that does nothing in its slots, and one that queues input buffer 7 again, with
  the output buffers 10 and 11, as soon as it is told that buffer 7 was consumed.
\<close>

definition owner_idle :: owner where
  "owner_idle = (\<lambda>c sig. [])"

definition owner_requeue :: owner where
  "owner_requeue =
     (\<lambda>c sig. if sig = InputBufferReady 7 then [QueueBuffers 7 [(0, 10), (1, 11)]] else [])"

section \<open>Properties\<close>

subsection \<open>Validation in \<open>queueBuffers\<close>\<close>

lemma validate_loop_Some:
  "validate_loop n outs acc = Some S \<longleftrightarrow>
     (\<forall>(i, b) \<in> set outs. b \<noteq> nullptr \<and> i < n) \<and> S = acc \<union> snd ` set outs"
  by (induction n outs acc rule: validate_loop.induct) auto

lemma validate_loop_None:
  "validate_loop n outs acc = None \<longleftrightarrow> (\<exists>(i, b) \<in> set outs. b = nullptr \<or> n \<le> i)"
  by (induction n outs acc rule: validate_loop.induct) auto

text \<open>
  C1: a call of \<open>queueBuffers\<close> whose output map is empty, or names a stream index that is
  not below the number of configured streams, or holds a null output buffer, or whose
  number of distinct output buffers differs from the number of configured streams, returns
  \<open>-EINVAL\<close> and leaves the converter as it was; in particular the hardware log is
  unchanged, so no stream was asked to queue anything.
\<close>

theorem queueBuffers_rejects_invalid:
  assumes "outputs = [] \<or> (\<exists>(i, b) \<in> set outputs. length (streams c) \<le> i) \<or>
           (\<exists>(i, b) \<in> set outputs. b = nullptr) \<or>
           card (snd ` set outputs) \<noteq> length (streams c)"
  shows "queueBuffers hw c input outputs = (- EINVAL, c)"
proof (cases "validate_loop (length (streams c)) outputs {}")
  case None
  then show ?thesis by (simp add: queueBuffers_def)
next
  case (Some S)
  then have ok: "\<forall>(i, b) \<in> set outputs. b \<noteq> nullptr \<and> i < length (streams c)"
    and S: "S = snd ` set outputs"
    by (simp_all add: validate_loop_Some)
  from assms ok have "outputs = [] \<or> card (snd ` set outputs) \<noteq> length (streams c)"
    by fastforce
  with Some S show ?thesis by (auto simp add: queueBuffers_def)
qed

text \<open>Two streams, and both map entries name the same output buffer.\<close>

theorem queueBuffers_rejects_invalid_witness:
  "card (snd ` set [(0, 8), (1, 8 :: FrameBuffer)]) \<noteq> length (streams conv2) \<and>
   queueBuffers hw_ok conv2 7 [(0, 8), (1, 8)] = (- EINVAL, conv2)"
  using queueBuffers_rejects_invalid [of "[(0, 8), (1, 8)]" conv2 hw_ok 7]
  by (simp add: conv2_def)

subsection \<open>The stream: \<open>configure\<close>, \<open>start\<close> and \<open>stop\<close>\<close>

lemma Stream_stop_eq: "Stream_stop s log = (stopped s, log @ stop_calls s)"
  by (simp add: Stream_stop_def stopped_def stop_calls_def)

lemma stopped_eq: "stopped s = s\<lparr>m2m := map_option (\<lambda>d. m2m_fresh) (m2m s)\<rparr>"
  by (cases "m2m s")
     (simp_all add: stopped_def Stream_stop_def on_output_def on_capture_def m2m_fresh_def
        dev_closed_def dev_streamOff_def dev_releaseBuffers_def)


text \<open>
  C5: \<open>Stream::configure\<close>, once the hardware has accepted the set-format call on a side
  and reported what it negotiated. On the input side a negotiated pixel format, size or
  stride that differs from the request makes the call fail with \<open>-EINVAL\<close>. On the output
  side a negotiated pixel format or size that differs from the request makes it fail with
  \<open>-EINVAL\<close>; when those two agree the call succeeds whatever stride and plane layout the
  hardware reports, and the buffer counts of the two configurations are stored. When the
  hardware rejects a set-format call, nothing was negotiated and the call fails with the
  hardware's error. In every failing case the stream is unchanged.
\<close>

theorem Stream_configure_negotiation:
  fixes hw s inputCfg outputCfg log
  defines "call1 \<equiv> input_request hw s inputCfg"
    and "call2 \<equiv> output_request hw s outputCfg"
  defines "got1 \<equiv> hw_negotiated hw log call1"
    and "got2 \<equiv> hw_negotiated hw (log @ [call1]) call2"
  defines "input_ok \<equiv> 0 \<le> hw_ret hw log call1 \<and>
             fourcc got1 = toV4L2PixelFormat hw OutputQ (pixelFormat inputCfg) \<and>
             fmtSize got1 = cfgSize inputCfg \<and> bpl0 got1 = stride inputCfg"
  shows "(hw_ret hw log call1 < 0
          \<longrightarrow> Stream_configure hw s inputCfg outputCfg log
                = (hw_ret hw log call1, s, log @ [call1])) \<and>
         (input_ok \<and> hw_ret hw (log @ [call1]) call2 < 0
          \<longrightarrow> Stream_configure hw s inputCfg outputCfg log
                = (hw_ret hw (log @ [call1]) call2, s, log @ [call1, call2])) \<and>
         (0 \<le> hw_ret hw log call1 \<and>
          (fourcc got1 \<noteq> toV4L2PixelFormat hw OutputQ (pixelFormat inputCfg) \<or>
           fmtSize got1 \<noteq> cfgSize inputCfg \<or> bpl0 got1 \<noteq> stride inputCfg)
          \<longrightarrow> Stream_configure hw s inputCfg outputCfg log = (- EINVAL, s, log @ [call1])) \<and>
         (input_ok \<and> 0 \<le> hw_ret hw (log @ [call1]) call2 \<and>
          (fourcc got2 \<noteq> toV4L2PixelFormat hw CaptureQ (pixelFormat outputCfg) \<or>
           fmtSize got2 \<noteq> cfgSize outputCfg)
          \<longrightarrow> Stream_configure hw s inputCfg outputCfg log = (- EINVAL, s, log @ [call1, call2])) \<and>
         (input_ok \<and> 0 \<le> hw_ret hw (log @ [call1]) call2 \<and>
          fourcc got2 = toV4L2PixelFormat hw CaptureQ (pixelFormat outputCfg) \<and>
          fmtSize got2 = cfgSize outputCfg
          \<longrightarrow> Stream_configure hw s inputCfg outputCfg log =
                (0, s\<lparr>inputBufferCount := bufferCount inputCfg,
                       outputBufferCount := bufferCount outputCfg\<rparr>, log @ [call1, call2]))"
  unfolding assms
  by (simp add: Stream_configure_def input_request_def output_request_def Let_def)

text \<open>
  Five devices: one rejects the set-format call on its output queue and one the call on
  its capture queue; one changes the stride of every request, one changes the size on its
  capture queue, and one applies pixel format and size and fills in a stride and a plane
  count of its own on the capture queue.
\<close>

theorem Stream_configure_negotiation_witness:
  "Stream_configure (hw_failing (\<lambda>call. \<exists>f. call = SetFormat 0 OutputQ f))
      (fst (Stream_new hw_ok 0 [])) cfg_in cfg_out0 []
     = (- 5, fst (Stream_new hw_ok 0 []),
        [input_request hw_ok (fst (Stream_new hw_ok 0 [])) cfg_in]) \<and>
   Stream_configure (hw_failing (\<lambda>call. \<exists>f. call = SetFormat 0 CaptureQ f))
      (fst (Stream_new hw_ok 0 [])) cfg_in cfg_out0 []
     = (- 5, fst (Stream_new hw_ok 0 []),
        [input_request hw_ok (fst (Stream_new hw_ok 0 [])) cfg_in,
         output_request hw_ok (fst (Stream_new hw_ok 0 [])) cfg_out0]) \<and>
   Stream_configure (hw_adjusting (\<lambda>q f. f\<lparr>bpl0 := 2048\<rparr>)) (fst (Stream_new hw_ok 0 []))
      cfg_in cfg_out0 []
     = (- EINVAL, fst (Stream_new hw_ok 0 []),
        [input_request hw_ok (fst (Stream_new hw_ok 0 [])) cfg_in]) \<and>
   Stream_configure (hw_adjusting (\<lambda>q f. if q = CaptureQ then f\<lparr>fmtSize := (1, 1)\<rparr> else f))
      (fst (Stream_new hw_ok 0 [])) cfg_in cfg_out0 []
     = (- EINVAL, fst (Stream_new hw_ok 0 []),
        [input_request hw_ok (fst (Stream_new hw_ok 0 [])) cfg_in,
         output_request hw_ok (fst (Stream_new hw_ok 0 [])) cfg_out0]) \<and>
   Stream_configure
      (hw_adjusting (\<lambda>q f. if q = CaptureQ then f\<lparr>planesCount := 1, bpl0 := 2560\<rparr> else f))
      (fst (Stream_new hw_ok 0 [])) cfg_in cfg_out0 []
     = (0, stream_cfgd 0 cfg_out0,
        [input_request hw_ok (fst (Stream_new hw_ok 0 [])) cfg_in,
         output_request hw_ok (fst (Stream_new hw_ok 0 [])) cfg_out0])"
  using Stream_configure_negotiation
          [of "hw_failing (\<lambda>call. \<exists>f. call = SetFormat 0 OutputQ f)" "[]"
              "fst (Stream_new hw_ok 0 [])" cfg_in cfg_out0]
        Stream_configure_negotiation
          [of "hw_failing (\<lambda>call. \<exists>f. call = SetFormat 0 CaptureQ f)" "[]"
              "fst (Stream_new hw_ok 0 [])" cfg_in cfg_out0]
        Stream_configure_negotiation
          [of "hw_adjusting (\<lambda>q f. f\<lparr>bpl0 := 2048\<rparr>)" "[]" "fst (Stream_new hw_ok 0 [])"
              cfg_in cfg_out0]
        Stream_configure_negotiation
          [of "hw_adjusting (\<lambda>q f. if q = CaptureQ then f\<lparr>fmtSize := (1, 1)\<rparr> else f)" "[]"
              "fst (Stream_new hw_ok 0 [])" cfg_in cfg_out0]
        Stream_configure_negotiation
          [of "hw_adjusting (\<lambda>q f. if q = CaptureQ then f\<lparr>planesCount := 1, bpl0 := 2560\<rparr> else f)"
              "[]" "fst (Stream_new hw_ok 0 [])" cfg_in cfg_out0]
  by (simp add: hw_adjusting_def hw_failing_def hw_ok_def Stream_new_def input_request_def
        output_request_def cfg_in_def cfg_out0_def stream_cfgd_def)

text \<open>
  C6, as the code has it: \<open>Stream::start\<close> imports the input-side buffers, imports the
  output-side buffers, activates the input queue and activates the output queue, in this
  order and up to the first step that fails. When the first step fails the failure is
  returned at once; \<open>stop\<close> is not called and the stream is left as it was. When one of the
  three later steps fails the stream is stopped and then the failure is returned. When all
  four succeed, 0 is returned and both queues are active with their buffers imported.
\<close>

theorem Stream_start_unwinds:
  fixes hw s log
  defines "r \<equiv> start_ret hw s log"
  shows "(r 0 < 0 \<longrightarrow> Stream_start hw s log = (r 0, s, log @ take 1 (start_calls s))) \<and>
         (0 \<le> r 0 \<and> r 1 < 0 \<longrightarrow>
            Stream_start hw s log = (r 1, stopped s, log @ take 2 (start_calls s) @ stop_calls s)) \<and>
         (0 \<le> r 0 \<and> 0 \<le> r 1 \<and> r 2 < 0 \<longrightarrow>
            Stream_start hw s log = (r 2, stopped s, log @ take 3 (start_calls s) @ stop_calls s)) \<and>
         (0 \<le> r 0 \<and> 0 \<le> r 1 \<and> 0 \<le> r 2 \<and> r 3 < 0 \<longrightarrow>
            Stream_start hw s log = (r 3, stopped s, log @ start_calls s @ stop_calls s)) \<and>
         (0 \<le> r 0 \<and> 0 \<le> r 1 \<and> 0 \<le> r 2 \<and> 0 \<le> r 3 \<longrightarrow>
            Stream_start hw s log = (0, started s, log @ start_calls s))"
  unfolding assms
  by (cases "m2m s")
     (simp_all add: Stream_start_def start_ret_def start_calls_def Let_def Stream_stop_eq
        stopped_eq started_def stop_calls_def on_output_def on_capture_def
        dev_importBuffers_def dev_streamOn_def)

text \<open>
  Five devices: each of the first four refuses one of the four steps, on the fifth all
  succeeds.
\<close>

theorem Stream_start_unwinds_witness:
  "Stream_start (hw_failing (\<lambda>call. call = ImportBuffers 0 OutputQ 4)) (stream_cfgd 0 cfg_out0) []
     = (- 5, stream_cfgd 0 cfg_out0, [ImportBuffers 0 OutputQ 4]) \<and>
   Stream_start (hw_failing (\<lambda>call. call = ImportBuffers 0 CaptureQ 4)) (stream_cfgd 0 cfg_out0) []
     = (- 5, stream_cfgd 0 cfg_out0,
        [ImportBuffers 0 OutputQ 4, ImportBuffers 0 CaptureQ 4,
         StreamOff 0 CaptureQ, StreamOff 0 OutputQ,
         ReleaseBuffers 0 CaptureQ, ReleaseBuffers 0 OutputQ]) \<and>
   Stream_start (hw_failing (\<lambda>call. call = StreamOn 0 OutputQ)) (stream_cfgd 0 cfg_out0) []
     = (- 5, stream_cfgd 0 cfg_out0,
        [ImportBuffers 0 OutputQ 4, ImportBuffers 0 CaptureQ 4, StreamOn 0 OutputQ,
         StreamOff 0 CaptureQ, StreamOff 0 OutputQ,
         ReleaseBuffers 0 CaptureQ, ReleaseBuffers 0 OutputQ]) \<and>
   Stream_start (hw_failing (\<lambda>call. call = StreamOn 0 CaptureQ)) (stream_cfgd 0 cfg_out0) []
     = (- 5, stream_cfgd 0 cfg_out0,
        [ImportBuffers 0 OutputQ 4, ImportBuffers 0 CaptureQ 4, StreamOn 0 OutputQ,
         StreamOn 0 CaptureQ, StreamOff 0 CaptureQ, StreamOff 0 OutputQ,
         ReleaseBuffers 0 CaptureQ, ReleaseBuffers 0 OutputQ]) \<and>
   Stream_start hw_ok (stream_cfgd 0 cfg_out0) []
     = (0, started (stream_cfgd 0 cfg_out0),
        [ImportBuffers 0 OutputQ 4, ImportBuffers 0 CaptureQ 4, StreamOn 0 OutputQ,
         StreamOn 0 CaptureQ])"
  using Stream_start_unwinds
          [of "hw_failing (\<lambda>call. call = ImportBuffers 0 OutputQ 4)" "stream_cfgd 0 cfg_out0" "[]"]
        Stream_start_unwinds
          [of "hw_failing (\<lambda>call. call = ImportBuffers 0 CaptureQ 4)" "stream_cfgd 0 cfg_out0" "[]"]
        Stream_start_unwinds
          [of "hw_failing (\<lambda>call. call = StreamOn 0 OutputQ)" "stream_cfgd 0 cfg_out0" "[]"]
        Stream_start_unwinds
          [of "hw_failing (\<lambda>call. call = StreamOn 0 CaptureQ)" "stream_cfgd 0 cfg_out0" "[]"]
        Stream_start_unwinds [of hw_ok "stream_cfgd 0 cfg_out0" "[]"]
  by (simp add: start_ret_def start_calls_def stop_calls_def hw_failing_def hw_ok_def
        stream_cfgd_def cfg_in_def cfg_out0_def stopped_eq)

text \<open>
  C6, as the claim has it, fails at the first step: on a device that refuses to import the
  input-side buffers, \<open>start\<close> returns the failure after this one call; none of the calls of
  \<open>stop\<close> is made.
\<close>

theorem Stream_start_first_step_counterexample:
  "Stream_start (hw_failing (\<lambda>call. call = ImportBuffers 0 OutputQ 4)) (stream_cfgd 0 cfg_out0) []
     = (- 5, stream_cfgd 0 cfg_out0, [ImportBuffers 0 OutputQ 4])"
  by (simp add: Stream_start_def hw_failing_def hw_ok_def stream_cfgd_def cfg_in_def cfg_out0_def)




subsection \<open>The converter: \<open>stop\<close>\<close>

lemma stop_loop_eq:
  "stop_loop ss log = (map stopped ss, log @ concat (map stop_calls ss))"
  by (induction ss arbitrary: log) (simp_all add: Stream_stop_eq)

text \<open>
  C8: \<open>stop\<close> of the converter stops every stream, the last of the vector first and the
  first last: the hardware log grows by the calls of \<open>Stream::stop\<close> for each stream, in
  reverse order of the vector. No result of a device call is looked at, so no failure of
  one stream keeps another from being stopped.
\<close>

theorem stop_reverse_order:
  "hwlog (stop c) = hwlog c @ concat (map stop_calls (rev (streams c))) \<and>
   streams (stop c) = map stopped (streams c)"
  by (simp add: stop_def stop_loop_eq rev_map)

subsection \<open>The converter: \<open>configure\<close>\<close>

lemma Stream_configure_ret: "Stream_configure hw s ic oc log = (ret, s', log') \<Longrightarrow> ret \<le> 0"
  by (auto simp add: Stream_configure_def Let_def EINVAL_def split: if_splits)

lemma Stream_configure_ok:
  "Stream_configure hw s ic oc log = (ret, s', log') \<Longrightarrow> \<not> ret < 0 \<Longrightarrow>
     index s' = index s \<and> m2m s' = m2m s \<and> outputBufferCount s' = bufferCount oc \<and>
     inputBufferCount s' = bufferCount ic"
  by (auto simp add: Stream_configure_def Let_def EINVAL_def split: if_splits)

lemma configure_body_ret: "configure_body hw ic oc i log = (ret, s', log') \<Longrightarrow> ret \<le> 0"
  by (auto simp add: configure_body_def EINVAL_def split: prod.splits if_splits
        dest: Stream_configure_ret)

lemma configure_body_ok:
  assumes "configure_body hw ic oc i log = (ret, s', log')" and "\<not> ret < 0"
  shows "index s' = i \<and> isValid s' \<and> outputBufferCount s' = bufferCount oc"
proof -
  obtain st log1 where new: "Stream_new hw i log = (st, log1)" by (cases "Stream_new hw i log")
  from new have i: "index st = i" by (auto simp add: Stream_new_def Let_def)
  from assms new have v: "isValid st" and cf: "Stream_configure hw st ic oc log1 = (ret, s', log')"
    by (auto simp add: configure_body_def EINVAL_def split: if_splits)
  from Stream_configure_ok [OF cf assms(2)] i v show ?thesis by (simp add: isValid_def)
qed

lemma configure_iter_ret:
  "configure_iter hw ic cfgs i ss log = (ret, ss', log') \<Longrightarrow> ret \<le> 0"
  by (induction cfgs arbitrary: i ss log)
     (auto split: prod.splits if_splits dest: configure_body_ret)

lemma configure_iter_ok:
  "configure_iter hw ic cfgs i ss log = (ret, ss', log') \<Longrightarrow> \<not> ret < 0 \<Longrightarrow>
     map index ss' = map index ss @ [i ..< i + length cfgs] \<and>
     map outputBufferCount ss' = map outputBufferCount ss @ map bufferCount cfgs \<and>
     map isValid ss' = map isValid ss @ replicate (length cfgs) True"
proof (induction cfgs arbitrary: i ss log)
  case Nil
  then show ?case by simp
next
  case (Cons oc rest)
  obtain r st log1 where body: "configure_body hw ic oc i log = (r, st, log1)"
    by (cases "configure_body hw ic oc i log") auto
  from Cons.prems body have r: "\<not> r < 0"
    and rec: "configure_iter hw ic rest (Suc i) (ss @ [st]) log1 = (ret, ss', log')"
    by (auto split: if_splits)
  from Cons.IH [OF rec Cons.prems(2)] configure_body_ok [OF body r] show ?case
    by (simp del: upt_Suc add: upt_conv_Cons)
qed

lemma configure_iter_fail:
  "configure_iter hw ic cfgs i ss log = (ret, ss', log') \<Longrightarrow> ret < 0 \<Longrightarrow>
     \<exists>k < length cfgs. \<exists>ssk logk st.
        configure_iter hw ic (take k cfgs) i ss log = (0, ssk, logk) \<and>
        configure_body hw ic (cfgs ! k) (i + k) logk = (ret, st, log')"
proof (induction cfgs arbitrary: i ss log)
  case Nil
  then show ?case by simp
next
  case (Cons oc rest)
  obtain r st log1 where body: "configure_body hw ic oc i log = (r, st, log1)"
    by (cases "configure_body hw ic oc i log") auto
  show ?case
  proof (cases "r < 0")
    case True
    with Cons.prems body have "r = ret" "log1 = log'" by auto
    with body show ?thesis
      by (intro exI [of _ 0] conjI exI [of _ ss] exI [of _ log] exI [of _ st]) simp_all
  next
    case False
    with Cons.prems body
    have rec: "configure_iter hw ic rest (Suc i) (ss @ [st]) log1 = (ret, ss', log')"
      by auto
    from Cons.IH [OF rec Cons.prems(2)] obtain k ssk logk stk where k: "k < length rest"
      and pre: "configure_iter hw ic (take k rest) (Suc i) (ss @ [st]) log1 = (0, ssk, logk)"
      and at: "configure_body hw ic (rest ! k) (Suc i + k) logk = (ret, stk, log')"
      by blast
    from pre False body
    have "configure_iter hw ic (take (Suc k) (oc # rest)) i ss log = (0, ssk, logk)"
      by simp
    with at k show ?thesis
      by (intro exI [of _ "Suc k"] conjI exI [of _ ssk] exI [of _ logk] exI [of _ stk]) simp_all
  qed
qed

lemma configure_body_calls:
  assumes "configure_body hw ic oc i log = (ret, s, log')"
  shows "\<exists>cs. log' = log @ cs \<and> (\<forall>call \<in> set cs. call_index call = i)"
proof -
  have "log' = log @ [M2MOpen i] \<or>
        log' = log @ [M2MOpen i, SetFormat i OutputQ
                 \<lparr>fourcc = toV4L2PixelFormat hw OutputQ (pixelFormat ic), fmtSize = cfgSize ic,
                  planesCount = 1, bpl0 = stride ic\<rparr>] \<or>
        log' = log @ [M2MOpen i, SetFormat i OutputQ
                 \<lparr>fourcc = toV4L2PixelFormat hw OutputQ (pixelFormat ic), fmtSize = cfgSize ic,
                  planesCount = 1, bpl0 = stride ic\<rparr>,
               SetFormat i CaptureQ
                 \<lparr>fourcc = toV4L2PixelFormat hw CaptureQ (pixelFormat oc), fmtSize = cfgSize oc,
                  planesCount = 0, bpl0 = 0\<rparr>]"
    using assms
    by (auto simp add: configure_body_def Stream_new_def Stream_configure_def Let_def
          split: if_splits)
  then show ?thesis by (elim disjE) (rule exI, rule conjI, assumption, simp)+
qed

lemma configure_iter_calls:
  "configure_iter hw ic cfgs i ss log = (ret, ss', log') \<Longrightarrow>
     \<exists>cs. log' = log @ cs \<and> (\<forall>call \<in> set cs. i \<le> call_index call \<and> call_index call < i + length cfgs)"
proof (induction cfgs arbitrary: i ss log)
  case Nil
  then show ?case by simp
next
  case (Cons oc rest)
  obtain r st log1 where body: "configure_body hw ic oc i log = (r, st, log1)"
    by (cases "configure_body hw ic oc i log") auto
  from configure_body_calls [OF body] obtain cs1 where
    cs1: "log1 = log @ cs1" "\<forall>call \<in> set cs1. call_index call = i" by blast
  show ?case
  proof (cases "r < 0")
    case True
    with Cons.prems body have "log' = log1" by simp
    with cs1 show ?thesis by auto
  next
    case False
    with Cons.prems body
    have "configure_iter hw ic rest (Suc i) (ss @ [st]) log1 = (ret, ss', log')" by simp
    from Cons.IH [OF this] obtain cs2 where
      cs2: "log' = log1 @ cs2"
        "\<forall>call \<in> set cs2. Suc i \<le> call_index call \<and> call_index call < Suc i + length rest"
      by blast
    from cs1 cs2 have "log' = log @ (cs1 @ cs2)" by simp
    moreover from cs1 cs2
    have "\<forall>call \<in> set (cs1 @ cs2). i \<le> call_index call \<and> call_index call < i + length (oc # rest)"
      by fastforce
    ultimately show ?thesis by blast
  qed
qed

lemma configure_iter_fail_calls:
  assumes "configure_iter hw ic (take k cfgs) 0 [] log = (0, ssk, logk)"
    and "configure_body hw ic oc k logk = (ret, st, log')" and "k < length cfgs"
  shows "\<exists>cs. log' = log @ cs \<and> (\<forall>call \<in> set cs. call_index call \<le> k)"
proof -
  from configure_iter_calls [OF assms(1)] assms(3) obtain cs1 where
    cs1: "logk = log @ cs1" "\<forall>call \<in> set cs1. call_index call < k" by auto
  from configure_body_calls [OF assms(2)] obtain cs2 where
    cs2: "log' = logk @ cs2" "\<forall>call \<in> set cs2. call_index call = k" by blast
  from cs1 cs2 have "log' = log @ (cs1 @ cs2)" by simp
  moreover from cs1 cs2 have "\<forall>call \<in> set (cs1 @ cs2). call_index call \<le> k" by fastforce
  ultimately show ?thesis by blast
qed

lemma configure_iter_append:
  "configure_iter hw ic (xs @ ys) i ss log =
     (case configure_iter hw ic xs i ss log of (ret, ss', log') \<Rightarrow>
        if ret < 0 then (ret, ss', log') else configure_iter hw ic ys (i + length xs) ss' log')"
  by (induction xs arbitrary: i ss log) (auto split: prod.splits)

lemma configure_loop_iter:
  "length cfgs < 2 ^ 32 \<Longrightarrow> unat i \<le> length cfgs \<Longrightarrow>
     configure_loop hw ic cfgs i ss log =
       Some (configure_iter hw ic (drop (unat i) cfgs) (unat i) ss log)"
proof (induction "length cfgs - unat i" arbitrary: i ss log)
  case 0
  then have "unat i = length cfgs" by simp
  then show ?case by (subst configure_loop.simps) simp
next
  case (Suc n)
  then have lt: "unat i < length cfgs" by simp
  with Suc.prems(1) have "unat i + unat (1 :: 32 word) < 2 ^ LENGTH(32)" by simp
  then have u: "unat (i + 1) = Suc (unat i)" by (simp add: unat_add_lem [THEN iffD1])
  from lt have d: "drop (unat i) cfgs = cfgs ! unat i # drop (Suc (unat i)) cfgs"
    by (simp add: Cons_nth_drop_Suc)
  obtain r st log1 where body: "configure_body hw ic (cfgs ! unat i) (unat i) log = (r, st, log1)"
    by (cases "configure_body hw ic (cfgs ! unat i) (unat i) log") auto
  from Suc.hyps(2) u lt have n: "n = length cfgs - unat (i + 1)" by simp
  from lt u have le: "unat (i + 1) \<le> length cfgs" by simp
  from Suc.hyps(1) [OF n Suc.prems(1) le, of "ss @ [st]" log1] body lt d u
  show ?case by (subst configure_loop.simps) simp
qed

lemma configure_eq:
  assumes "length cfgs < 2 ^ 32"
  shows "configure hw c ic cfgs =
     Some (case configure_iter hw ic cfgs 0 [] (hwlog c) of (ret, ss, log) \<Rightarrow>
             if ret < 0 then (ret, c\<lparr>streams := [], hwlog := log\<rparr>)
             else (0, c\<lparr>streams := ss, hwlog := log\<rparr>))"
  using configure_loop_iter [OF assms, of 0 hw ic "[]" "hwlog c"]
  by (simp add: configure_def split: prod.splits)

lemma configure_prefix_ok:
  assumes "length cfgs < 2 ^ 32" and "configure hw c ic (take k cfgs) = Some (0, ck)"
  shows "configure_iter hw ic (take k cfgs) 0 [] (hwlog c) = (0, streams ck, hwlog ck)"
proof -
  from assms(1) have "length (take k cfgs) < 2 ^ 32" by simp
  from configure_eq [OF this, of hw c ic] assms(2) show ?thesis
    by (auto split: prod.splits if_splits dest: configure_iter_ret)
qed

lemma configure_step:
  assumes len: "length cfgs < 2 ^ 32" and k: "k < length cfgs"
    and pre: "configure hw c ic (take k cfgs) = Some (0, ck)"
    and body: "configure_body hw ic (cfgs ! k) k (hwlog ck) = (r, st, log2)"
  shows "r < 0 \<Longrightarrow> configure hw c ic cfgs = Some (r, c\<lparr>streams := [], hwlog := log2\<rparr>)"
    and "\<not> r < 0 \<Longrightarrow> configure hw c ic (take (Suc k) cfgs)
                        = Some (0, c\<lparr>streams := streams ck @ [st], hwlog := log2\<rparr>)"
proof -
  note it = configure_prefix_ok [OF len pre]
  from k have full: "cfgs = take k cfgs @ (cfgs ! k # drop (Suc k) cfgs)"
    by (simp add: Cons_nth_drop_Suc)
  from k have lk: "min (length cfgs) k = k" by simp
  have one: "configure_iter hw ic (take k cfgs @ [cfgs ! k]) 0 [] (hwlog c) =
               (if r < 0 then (r, streams ck @ [st], log2) else (0, streams ck @ [st], log2))"
    using it body configure_body_ret [OF body] by (simp add: configure_iter_append lk)
  {
    assume r: "r < 0"
    have "configure_iter hw ic (take k cfgs @ (cfgs ! k # drop (Suc k) cfgs)) 0 [] (hwlog c)
            = (r, streams ck @ [st], log2)"
      using it body r by (simp add: configure_iter_append lk)
    with full have "configure_iter hw ic cfgs 0 [] (hwlog c) = (r, streams ck @ [st], log2)"
      by simp
    with r show "configure hw c ic cfgs = Some (r, c\<lparr>streams := [], hwlog := log2\<rparr>)"
      by (simp add: configure_eq [OF len])
  }
  {
    assume r: "\<not> r < 0"
    from k have t: "take (Suc k) cfgs = take k cfgs @ [cfgs ! k]" by (simp add: take_Suc_conv_app_nth)
    from len have "length (take (Suc k) cfgs) < 2 ^ 32" by simp
    from configure_eq [OF this, of hw c ic] one r
    show "configure hw c ic (take (Suc k) cfgs)
            = Some (0, c\<lparr>streams := streams ck @ [st], hwlog := log2\<rparr>)"
      by (simp add: t)
  }
qed

text \<open>
  C4: \<open>configure\<close> with \<open>K\<close> output configurations, \<open>K\<close> below \<open>2^32\<close>. The call returns.
  Either it returns 0, and then the converter holds \<open>K\<close> valid streams with the indices
  \<open>0, \<dots>, K-1\<close>, the stream at position \<open>i\<close> configured from the \<open>i\<close>-th output
  configuration; or it returns a failure, and then the converter holds no stream, and
  there is a first index \<open>k\<close> such that \<open>configure\<close> succeeds on the first \<open>k\<close>
  configurations, the result is that of \<open>configure\<close> on the first \<open>k+1\<close>, and every device
  call made is addressed to a stream index up to \<open>k\<close>: nothing was tried for a later one.
  What happens at each index is fixed by the stream's constructor and its \<open>configure\<close>:
  with no configuration the call returns 0 and leaves no stream; and when the first \<open>k\<close>
  configurations succeed, the stream with index \<open>k\<close> is created on the log they left; if
  its device did not open the whole call fails with \<open>-EINVAL\<close>; otherwise it is configured
  from the \<open>k\<close>-th output configuration, and if that fails the whole call fails with that
  result; otherwise the first \<open>k+1\<close> configurations succeed, with the new stream appended.
\<close>

theorem configure_all_or_nothing:
  assumes len: "length outputCfgs < 2 ^ 32"
  shows "(\<exists>ret c'. configure hw c inputCfg outputCfgs = Some (ret, c') \<and>
            ((ret = 0 \<and> map index (streams c') = [0 ..< length outputCfgs] \<and>
              map outputBufferCount (streams c') = map bufferCount outputCfgs \<and>
              list_all isValid (streams c')) \<or>
             (ret < 0 \<and> streams c' = [] \<and>
              (\<exists>k < length outputCfgs. \<exists>ck.
                  configure hw c inputCfg (take k outputCfgs) = Some (0, ck) \<and>
                  configure hw c inputCfg (take (Suc k) outputCfgs) = Some (ret, c') \<and>
                  (\<exists>calls. hwlog c' = hwlog c @ calls \<and>
                           (\<forall>call \<in> set calls. call_index call \<le> k)))))) \<and>
         configure hw c inputCfg [] = Some (0, c\<lparr>streams := []\<rparr>) \<and>
         (\<forall>k < length outputCfgs. \<forall>ck.
            configure hw c inputCfg (take k outputCfgs) = Some (0, ck) \<longrightarrow>
            (case Stream_new hw k (hwlog ck) of (st, log1) \<Rightarrow>
               if \<not> isValid st
               then configure hw c inputCfg outputCfgs
                      = Some (- EINVAL, c\<lparr>streams := [], hwlog := log1\<rparr>)
               else (case Stream_configure hw st inputCfg (outputCfgs ! k) log1 of
                       (r, st', log2) \<Rightarrow>
                         if r < 0
                         then configure hw c inputCfg outputCfgs
                                = Some (r, c\<lparr>streams := [], hwlog := log2\<rparr>)
                         else configure hw c inputCfg (take (Suc k) outputCfgs)
                                = Some (0, c\<lparr>streams := streams ck @ [st'], hwlog := log2\<rparr>))))"
proof (intro conjI allI impI)
  obtain r ss log where loop: "configure_iter hw inputCfg outputCfgs 0 [] (hwlog c) = (r, ss, log)"
    by (cases "configure_iter hw inputCfg outputCfgs 0 [] (hwlog c)") auto
  show "\<exists>ret c'. configure hw c inputCfg outputCfgs = Some (ret, c') \<and>
            ((ret = 0 \<and> map index (streams c') = [0 ..< length outputCfgs] \<and>
              map outputBufferCount (streams c') = map bufferCount outputCfgs \<and>
              list_all isValid (streams c')) \<or>
             (ret < 0 \<and> streams c' = [] \<and>
              (\<exists>k < length outputCfgs. \<exists>ck.
                  configure hw c inputCfg (take k outputCfgs) = Some (0, ck) \<and>
                  configure hw c inputCfg (take (Suc k) outputCfgs) = Some (ret, c') \<and>
                  (\<exists>calls. hwlog c' = hwlog c @ calls \<and>
                           (\<forall>call \<in> set calls. call_index call \<le> k)))))"
  proof (cases "r < 0")
    case True
    with loop have res: "configure hw c inputCfg outputCfgs
                           = Some (r, c\<lparr>streams := [], hwlog := log\<rparr>)"
      by (simp add: configure_eq [OF len])
    from configure_iter_fail [OF loop True] obtain k ssk logk st where k: "k < length outputCfgs"
      and pre: "configure_iter hw inputCfg (take k outputCfgs) 0 [] (hwlog c) = (0, ssk, logk)"
      and at: "configure_body hw inputCfg (outputCfgs ! k) (0 + k) logk = (r, st, log)"
      by blast
    from at have at': "configure_body hw inputCfg (outputCfgs ! k) k logk = (r, st, log)"
      by simp
    from len have lk: "length (take k outputCfgs) < 2 ^ 32" by simp
    from pre have prefix: "configure hw c inputCfg (take k outputCfgs)
                             = Some (0, c\<lparr>streams := ssk, hwlog := logk\<rparr>)"
      by (simp add: configure_eq [OF lk])
    from at' have body: "configure_body hw inputCfg (outputCfgs ! k) k
                           (hwlog (c\<lparr>streams := ssk, hwlog := logk\<rparr>)) = (r, st, log)"
      by simp
    from k have t: "take (Suc k) outputCfgs = take k outputCfgs @ [outputCfgs ! k]"
      by (simp add: take_Suc_conv_app_nth)
    from k have lk': "min (length outputCfgs) k = k" by simp
    from len have "length (take (Suc k) outputCfgs) < 2 ^ 32" by simp
    from configure_eq [OF this, of hw c inputCfg] pre at' True
    have upto: "configure hw c inputCfg (take (Suc k) outputCfgs)
                  = Some (r, c\<lparr>streams := [], hwlog := log\<rparr>)"
      by (simp add: t configure_iter_append lk')
    from configure_iter_fail_calls [OF pre at' k]
    have "\<exists>calls. log = hwlog c @ calls \<and> (\<forall>call \<in> set calls. call_index call \<le> k)" .
    with k prefix upto res True show ?thesis by auto
  next
    case False
    with loop have res: "configure hw c inputCfg outputCfgs
                           = Some (0, c\<lparr>streams := ss, hwlog := log\<rparr>)"
      by (simp add: configure_eq [OF len])
    from configure_iter_ok [OF loop False] have m: "map index ss = [0 ..< length outputCfgs]"
      "map outputBufferCount ss = map bufferCount outputCfgs"
      "map isValid ss = replicate (length outputCfgs) True"
      by simp_all
    from m(3) have "list_all isValid ss"
      by (metis (full_types) in_set_replicate list.pred_set list.set_map imageI)
    with m res show ?thesis by simp
  qed
next
  show "configure hw c inputCfg [] = Some (0, c\<lparr>streams := []\<rparr>)"
    by (simp add: configure_def) (subst configure_loop.simps, simp)
next
  fix k ck
  assume k: "k < length outputCfgs"
    and pre: "configure hw c inputCfg (take k outputCfgs) = Some (0, ck)"
  obtain st log1 where new: "Stream_new hw k (hwlog ck) = (st, log1)"
    by (cases "Stream_new hw k (hwlog ck)")
  obtain r st' log2 where cf: "Stream_configure hw st inputCfg (outputCfgs ! k) log1 = (r, st', log2)"
    by (cases "Stream_configure hw st inputCfg (outputCfgs ! k) log1") auto
  show "case Stream_new hw k (hwlog ck) of (st, log1) \<Rightarrow>
               if \<not> isValid st
               then configure hw c inputCfg outputCfgs
                      = Some (- EINVAL, c\<lparr>streams := [], hwlog := log1\<rparr>)
               else (case Stream_configure hw st inputCfg (outputCfgs ! k) log1 of
                       (r, st', log2) \<Rightarrow>
                         if r < 0
                         then configure hw c inputCfg outputCfgs
                                = Some (r, c\<lparr>streams := [], hwlog := log2\<rparr>)
                         else configure hw c inputCfg (take (Suc k) outputCfgs)
                                = Some (0, c\<lparr>streams := streams ck @ [st'], hwlog := log2\<rparr>))"
  proof (cases "isValid st")
    case False
    with new have body: "configure_body hw inputCfg (outputCfgs ! k) k (hwlog ck)
                           = (- EINVAL, st, log1)"
      by (simp add: configure_body_def)
    from configure_step(1) [OF len k pre body] False new show ?thesis
      by (simp add: EINVAL_def)
  next
    case True
    with new cf have body: "configure_body hw inputCfg (outputCfgs ! k) k (hwlog ck)
                              = (r, st', log2)"
      by (simp add: configure_body_def)
    from configure_step [OF len k pre body] True new cf show ?thesis by simp
  qed
qed

text \<open>
  On the example device every stream opens and is configured as requested; the example
  converter \<open>conv2\<close> is what \<open>configure\<close> builds there. On a device whose second stream
  does not open, nothing is kept.
\<close>

lemma Stream_new_ok:
  "Stream_new hw_ok i log =
     (\<lparr>index = i, m2m = Some m2m_fresh, inputBufferCount = 0, outputBufferCount = 0\<rparr>,
      log @ [M2MOpen i])"
  by (simp add: Stream_new_def hw_ok_def)

lemma Stream_configure_ok_example:
  "Stream_configure hw_ok
      \<lparr>index = i, m2m = Some m2m_fresh, inputBufferCount = 0, outputBufferCount = 0\<rparr>
      cfg_in oc log =
     (0, stream_cfgd i oc,
      log @ [input_request hw_ok (stream_cfgd i oc) cfg_in,
             output_request hw_ok (stream_cfgd i oc) oc])"
  by (simp add: Stream_configure_def hw_ok_def stream_cfgd_def input_request_def
      output_request_def Let_def)

theorem configure_all_or_nothing_witness:
  "length [cfg_out0, cfg_out1] < (2 :: nat) ^ 32 \<and>
   configure hw_ok converter_new cfg_in [cfg_out0, cfg_out1] =
     Some (0, conv2\<lparr>hwlog := [M2MOpen 0, input_request hw_ok (stream_cfgd 0 cfg_out0) cfg_in,
                                output_request hw_ok (stream_cfgd 0 cfg_out0) cfg_out0,
                                M2MOpen 1, input_request hw_ok (stream_cfgd 1 cfg_out1) cfg_in,
                                output_request hw_ok (stream_cfgd 1 cfg_out1) cfg_out1]\<rparr>) \<and>
   configure (hw_failing (\<lambda>call. call = M2MOpen 1)) converter_new cfg_in [cfg_out0, cfg_out1] =
     Some (- EINVAL, converter_new\<lparr>hwlog :=
        [M2MOpen 0, input_request hw_ok (stream_cfgd 0 cfg_out0) cfg_in,
         output_request hw_ok (stream_cfgd 0 cfg_out0) cfg_out0, M2MOpen 1]\<rparr>)"
proof -
  define bad where "bad = hw_failing (\<lambda>call. call = M2MOpen 1)"
  let ?L0 = "[M2MOpen 0, input_request hw_ok (stream_cfgd 0 cfg_out0) cfg_in,
              output_request hw_ok (stream_cfgd 0 cfg_out0) cfg_out0]"
  have len: "length [cfg_out0, cfg_out1] < (2 :: nat) ^ 32" by simp
  note ok = configure_all_or_nothing [OF len, of hw_ok converter_new cfg_in]
  note bad = configure_all_or_nothing [OF len, of bad converter_new cfg_in]
  have new: "converter_new\<lparr>streams := []\<rparr> = converter_new" by (simp add: converter_new_def)
  from ok have o0: "configure hw_ok converter_new cfg_in (take 0 [cfg_out0, cfg_out1])
                      = Some (0, converter_new)"
    by (simp add: new)
  from ok [THEN conjunct2, THEN conjunct2, rule_format, of 0, OF _ o0]
  have o1: "configure hw_ok converter_new cfg_in (take (Suc 0) [cfg_out0, cfg_out1])
              = Some (0, converter_new\<lparr>streams := [stream_cfgd 0 cfg_out0], hwlog := ?L0\<rparr>)"
    by (simp add: Stream_new_ok Stream_configure_ok_example isValid_def converter_new_def)
  from ok [THEN conjunct2, THEN conjunct2, rule_format, of "Suc 0", OF _ o1]
  have o2: "configure hw_ok converter_new cfg_in [cfg_out0, cfg_out1] =
     Some (0, conv2\<lparr>hwlog := [M2MOpen 0, input_request hw_ok (stream_cfgd 0 cfg_out0) cfg_in,
                                output_request hw_ok (stream_cfgd 0 cfg_out0) cfg_out0,
                                M2MOpen 1, input_request hw_ok (stream_cfgd 1 cfg_out1) cfg_in,
                                output_request hw_ok (stream_cfgd 1 cfg_out1) cfg_out1]\<rparr>)"
    by (simp add: Stream_new_ok Stream_configure_ok_example isValid_def converter_new_def
        conv2_def)
  have same: "Stream_new bad 0 [] = Stream_new hw_ok 0 []"
    "Stream_configure bad st cfg_in cfg_out0 [M2MOpen 0] =
       Stream_configure hw_ok st cfg_in cfg_out0 [M2MOpen 0]" for st
    by (simp_all add: bad_def Stream_new_def Stream_configure_def hw_failing_def hw_ok_def Let_def)
  from bad have b0: "configure bad converter_new cfg_in (take 0 [cfg_out0, cfg_out1])
                       = Some (0, converter_new)"
    by (simp add: new)
  from bad [THEN conjunct2, THEN conjunct2, rule_format, of 0, OF _ b0]
  have b1: "configure bad converter_new cfg_in (take (Suc 0) [cfg_out0, cfg_out1])
              = Some (0, converter_new\<lparr>streams := [stream_cfgd 0 cfg_out0], hwlog := ?L0\<rparr>)"
    by (simp add: same Stream_new_ok Stream_configure_ok_example isValid_def converter_new_def)
  have open1: "Stream_new bad (Suc 0) ?L0 =
      (\<lparr>index = 1, m2m = None, inputBufferCount = 0, outputBufferCount = 0\<rparr>, ?L0 @ [M2MOpen 1])"
    by (simp add: bad_def Stream_new_def hw_failing_def hw_ok_def)
  from bad [THEN conjunct2, THEN conjunct2, rule_format, of "Suc 0", OF _ b1]
  have b2: "configure bad converter_new cfg_in [cfg_out0, cfg_out1] =
     Some (- EINVAL, converter_new\<lparr>hwlog :=
        [M2MOpen 0, input_request hw_ok (stream_cfgd 0 cfg_out0) cfg_in,
         output_request hw_ok (stream_cfgd 0 cfg_out0) cfg_out0, M2MOpen 1]\<rparr>)"
    by (simp add: open1 isValid_def converter_new_def)
  from len o2 b2 [unfolded bad_def] show ?thesis by (intro conjI)
qed


subsection \<open>The converter: \<open>queueBuffers\<close>\<close>

lemma accepted_iff:
  "accepted c outputs \<longleftrightarrow>
     outputs \<noteq> [] \<and> (\<forall>(i, b) \<in> set outputs. i < length (streams c) \<and> b \<noteq> nullptr) \<and>
     card (snd ` set outputs) = length (streams c)"
proof (cases "validate_loop (length (streams c)) outputs {}")
  case None
  then have "\<exists>(i, b) \<in> set outputs. b = nullptr \<or> length (streams c) \<le> i"
    by (simp add: validate_loop_None)
  with None show ?thesis by (fastforce simp add: accepted_def)
next
  case (Some S)
  from Some [unfolded validate_loop_Some] Some show ?thesis
    by (auto simp add: accepted_def)
qed

lemma Stream_queueBuffers_ret: "Stream_queueBuffers hw s input b log = (ret, log') \<Longrightarrow> ret \<le> 0"
  by (auto simp add: Stream_queueBuffers_def Let_def split: if_splits)

lemma queue_loop_ret: "queue_loop hw ss input outs log = (ret, log') \<Longrightarrow> ret \<le> 0"
  by (induction outs arbitrary: log)
     (auto split: prod.splits if_splits dest: Stream_queueBuffers_ret)

lemma queue_loop_append:
  "queue_loop hw ss input (pre @ post) log =
     (case queue_loop hw ss input pre log of (ret, log1) \<Rightarrow>
        if ret < 0 then (ret, log1) else queue_loop hw ss input post log1)"
  by (induction pre arbitrary: log) (auto split: prod.splits)

lemma queue_loop_first_failure:
  assumes "queue_loop hw ss input pre log = (0, log1)"
    and "Stream_queueBuffers hw (ss ! i) input b log1 = (ret, log2)" and "ret < 0"
  shows "queue_loop hw ss input (pre @ (i, b) # post) log = (ret, log2)"
  using assms by (simp add: queue_loop_append)

lemma queue_loop_dichotomy:
  "fst (queue_loop hw ss input outs log) = 0 \<or>
   (\<exists>pre i b post log1 ret log2. outs = pre @ (i, b) # post \<and>
      queue_loop hw ss input pre log = (0, log1) \<and>
      Stream_queueBuffers hw (ss ! i) input b log1 = (ret, log2) \<and> ret < 0)"
proof (induction outs arbitrary: log)
  case Nil
  then show ?case by simp
next
  case (Cons e rest)
  obtain i b where e: "e = (i, b)" by (cases e)
  obtain r log1 where q: "Stream_queueBuffers hw (ss ! i) input b log = (r, log1)"
    by (cases "Stream_queueBuffers hw (ss ! i) input b log")
  show ?case
  proof (cases "r < 0")
    case True
    with q e have "e # rest = [] @ (i, b) # rest \<and> queue_loop hw ss input [] log = (0, log) \<and>
       Stream_queueBuffers hw (ss ! i) input b log = (r, log1) \<and> r < 0" by simp
    then show ?thesis by blast
  next
    case False
    with q Stream_queueBuffers_ret [OF q] have r0: "r = 0" by simp
    from Cons.IH [of log1] show ?thesis
    proof
      assume "fst (queue_loop hw ss input rest log1) = 0"
      with q e r0 show ?thesis by simp
    next
      assume "\<exists>pre i b post log1' ret log2. rest = pre @ (i, b) # post \<and>
        queue_loop hw ss input pre log1 = (0, log1') \<and>
        Stream_queueBuffers hw (ss ! i) input b log1' = (ret, log2) \<and> ret < 0"
      then obtain pre i' b' post log1' ret log2 where f: "rest = pre @ (i', b') # post"
        "queue_loop hw ss input pre log1 = (0, log1')"
        "Stream_queueBuffers hw (ss ! i') input b' log1' = (ret, log2)" "ret < 0"
        by blast
      from f q e r0 have "e # rest = (e # pre) @ (i', b') # post \<and>
        queue_loop hw ss input (e # pre) log = (0, log1') \<and>
        Stream_queueBuffers hw (ss ! i') input b' log1' = (ret, log2) \<and> ret < 0"
        by simp
      then show ?thesis by blast
    qed
  qed
qed

lemma queueBuffers_accepted:
  assumes "accepted c outputs"
  shows "queueBuffers hw c input outputs =
     (case queue_loop hw (streams c) input outputs (hwlog c) of (ret, log) \<Rightarrow>
        if ret < 0 then (ret, c\<lparr>hwlog := log\<rparr>)
        else (0, c\<lparr>queue := emplace (queue c) input (of_nat (length outputs)), hwlog := log\<rparr>))"
proof -
  from assms have "validate_loop (length (streams c)) outputs {} = Some (snd ` set outputs)"
    by (auto simp add: accepted_iff validate_loop_Some)
  with assms show ?thesis by (simp add: queueBuffers_def accepted_iff)
qed

text \<open>
  C2, as the code has it, for a call of \<open>queueBuffers\<close> that gets past the validation. The
  streams are asked in the order of the map. When a stream is the first to fail, after the
  entries before it were queued, its failure is returned with the hardware log as that
  stream left it, so no later stream is asked, and \<open>queue\<close> is unchanged. When no stream
  fails, 0 is returned and the input buffer is emplaced in \<open>queue\<close> with the number of
  entries of the map. One of the two is the case. So, for an input buffer with no entry in
  \<open>queue\<close>, the entry with that count is inserted exactly when every stream accepted its
  buffers; for an input buffer that has an entry, \<open>queue\<close> is left as it is. The call
  itself emits no signal.
\<close>

theorem queueBuffers_submissions:
  assumes acc: "accepted c outputs"
  shows "(\<forall>pre i b post log1 ret log2.
            outputs = pre @ (i, b) # post \<and>
            queue_loop hw (streams c) input pre (hwlog c) = (0, log1) \<and>
            Stream_queueBuffers hw (streams c ! i) input b log1 = (ret, log2) \<and> ret < 0
            \<longrightarrow> queueBuffers hw c input outputs = (ret, c\<lparr>hwlog := log2\<rparr>)) \<and>
         (fst (queue_loop hw (streams c) input outputs (hwlog c)) = 0
            \<longrightarrow> queueBuffers hw c input outputs =
                  (0, c\<lparr>queue := emplace (queue c) input (of_nat (length outputs)),
                         hwlog := snd (queue_loop hw (streams c) input outputs (hwlog c))\<rparr>)) \<and>
         (fst (queue_loop hw (streams c) input outputs (hwlog c)) = 0 \<or>
          (\<exists>pre i b post log1 ret log2.
              outputs = pre @ (i, b) # post \<and>
              queue_loop hw (streams c) input pre (hwlog c) = (0, log1) \<and>
              Stream_queueBuffers hw (streams c ! i) input b log1 = (ret, log2) \<and> ret < 0)) \<and>
         (queue c input = None \<longrightarrow>
            (queue (snd (queueBuffers hw c input outputs)) =
               (queue c)(input \<mapsto> of_nat (length outputs))
             \<longleftrightarrow> fst (queue_loop hw (streams c) input outputs (hwlog c)) = 0)) \<and>
         (queue c input \<noteq> None \<longrightarrow> queue (snd (queueBuffers hw c input outputs)) = queue c) \<and>
         emitted (snd (queueBuffers hw c input outputs)) = emitted c"
proof (intro conjI allI impI)
  fix pre i b post log1 ret log2
  assume a: "outputs = pre @ (i, b) # post \<and>
            queue_loop hw (streams c) input pre (hwlog c) = (0, log1) \<and>
            Stream_queueBuffers hw (streams c ! i) input b log1 = (ret, log2) \<and> ret < 0"
  then have "queue_loop hw (streams c) input outputs (hwlog c) = (ret, log2)" and "ret < 0"
    using queue_loop_first_failure by blast+
  then show "queueBuffers hw c input outputs = (ret, c\<lparr>hwlog := log2\<rparr>)"
    by (simp add: queueBuffers_accepted [OF acc])
next
  assume "fst (queue_loop hw (streams c) input outputs (hwlog c)) = 0"
  then show "queueBuffers hw c input outputs =
                  (0, c\<lparr>queue := emplace (queue c) input (of_nat (length outputs)),
                         hwlog := snd (queue_loop hw (streams c) input outputs (hwlog c))\<rparr>)"
    by (cases "queue_loop hw (streams c) input outputs (hwlog c)")
       (simp add: queueBuffers_accepted [OF acc])
next
  show "fst (queue_loop hw (streams c) input outputs (hwlog c)) = 0 \<or>
          (\<exists>pre i b post log1 ret log2.
              outputs = pre @ (i, b) # post \<and>
              queue_loop hw (streams c) input pre (hwlog c) = (0, log1) \<and>
              Stream_queueBuffers hw (streams c ! i) input b log1 = (ret, log2) \<and> ret < 0)"
    by (rule queue_loop_dichotomy)
next
  assume n: "queue c input = None"
  obtain r log where q: "queue_loop hw (streams c) input outputs (hwlog c) = (r, log)"
    by (cases "queue_loop hw (streams c) input outputs (hwlog c)")
  from n have "(queue c)(input \<mapsto> of_nat (length outputs)) \<noteq> queue c"
    by (metis fun_upd_same option.distinct(1))
  with q n queue_loop_ret [OF q]
  show "queue (snd (queueBuffers hw c input outputs)) =
               (queue c)(input \<mapsto> of_nat (length outputs))
             \<longleftrightarrow> fst (queue_loop hw (streams c) input outputs (hwlog c)) = 0"
    by (auto simp add: queueBuffers_accepted [OF acc] emplace_def)
next
  assume "queue c input \<noteq> None"
  then show "queue (snd (queueBuffers hw c input outputs)) = queue c"
    by (auto simp add: queueBuffers_accepted [OF acc] emplace_def split: prod.splits)
next
  show "emitted (snd (queueBuffers hw c input outputs)) = emitted c"
    by (simp add: queueBuffers_accepted [OF acc] split: prod.splits)
qed


lemma conv2_accepts: "accepted conv2 [(0, 8), (1, 9)]"
  by (simp add: accepted_def conv2_def nullptr_def)

theorem queueBuffers_submissions_witness:
  "accepted conv2 [(0, 8), (1, 9)] \<and>
   queueBuffers hw_ok conv2 7 [(0, 8), (1, 9)] =
     (0, conv2\<lparr>queue := [7 \<mapsto> 2],
               hwlog := [QueueBuffer 0 OutputQ 7, QueueBuffer 0 CaptureQ 8,
                         QueueBuffer 1 OutputQ 7, QueueBuffer 1 CaptureQ 9]\<rparr>) \<and>
   queueBuffers (hw_failing (\<lambda>call. call = QueueBuffer 0 CaptureQ 8)) conv2 7 [(0, 8), (1, 9)] =
     (- 5, conv2\<lparr>hwlog := [QueueBuffer 0 OutputQ 7, QueueBuffer 0 CaptureQ 8]\<rparr>)"
proof -
  let ?bad = "hw_failing (\<lambda>call. call = QueueBuffer 0 CaptureQ 8)"
  have ok: "queue_loop hw_ok (streams conv2) 7 [(0, 8), (1, 9)] (hwlog conv2) =
              (0, [QueueBuffer 0 OutputQ 7, QueueBuffer 0 CaptureQ 8,
                   QueueBuffer 1 OutputQ 7, QueueBuffer 1 CaptureQ 9])"
    by (simp add: Stream_queueBuffers_def hw_ok_def conv2_def stream_cfgd_def Let_def)
  have bad: "[(0, 8), (1, 9)] = [] @ (0, 8) # [(1, 9 :: FrameBuffer)] \<and>
             queue_loop ?bad (streams conv2) 7 [] (hwlog conv2) = (0, []) \<and>
             Stream_queueBuffers ?bad (streams conv2 ! 0) 7 8 [] =
               (- 5, [QueueBuffer 0 OutputQ 7, QueueBuffer 0 CaptureQ 8]) \<and> (- 5 :: int) < 0"
    by (simp add: Stream_queueBuffers_def hw_failing_def hw_ok_def conv2_def stream_cfgd_def Let_def)
  from queueBuffers_submissions [OF conv2_accepts, of hw_ok 7] ok
  have "queueBuffers hw_ok conv2 7 [(0, 8), (1, 9)] =
     (0, conv2\<lparr>queue := [7 \<mapsto> 2],
               hwlog := [QueueBuffer 0 OutputQ 7, QueueBuffer 0 CaptureQ 8,
                         QueueBuffer 1 OutputQ 7, QueueBuffer 1 CaptureQ 9]\<rparr>)"
    by (simp add: emplace_def conv2_def)
  moreover from queueBuffers_submissions [OF conv2_accepts, of ?bad 7] bad
  have "queueBuffers ?bad conv2 7 [(0, 8), (1, 9)] =
     (- 5, conv2\<lparr>hwlog := [QueueBuffer 0 OutputQ 7, QueueBuffer 0 CaptureQ 8]\<rparr>)"
    by blast
  ultimately show ?thesis using conv2_accepts by simp
qed

lemma conv2_queueBuffers: "queueBuffers hw_ok conv2 7 [(0, 8), (1, 9)] = (0, conv2_queued)"
  by (simp add: queueBuffers_def Stream_queueBuffers_def hw_ok_def emplace_def nullptr_def
      Let_def conv2_def conv2_queued_def stream_cfgd_def)

lemma conv2_share: "Stream_outputBufferReady owner hw conv2_queued 7 = Some conv2_half"
  by (simp add: Stream_outputBufferReady_def conv2_queued_def conv2_half_def)

lemma conv2_requeue:
  "accepted conv2_half [(0, 10), (1, 11)] \<and>
   queue_loop hw_ok (streams conv2_half) 7 [(0, 10), (1, 11)] (hwlog conv2_half) =
     (0, hwlog conv2_half @ [QueueBuffer 0 OutputQ 7, QueueBuffer 0 CaptureQ 10,
                             QueueBuffer 1 OutputQ 7, QueueBuffer 1 CaptureQ 11]) \<and>
   queue conv2_half 7 = Some 1"
  by (simp add: accepted_def Stream_queueBuffers_def hw_ok_def nullptr_def Let_def conv2_def
      conv2_queued_def conv2_half_def stream_cfgd_def)

text \<open>
  C2, as the claim has it, fails when the input buffer already has an entry: buffer 7 is
  queued to both streams, one stream reports its share done, and buffer 7 is queued again.
  Every stream accepts the second request and 0 is returned, yet no entry with the count
  2 is inserted: the entry keeps the count 1.
\<close>

theorem queueBuffers_requeue_counterexample:
  "run owner_idle hw_ok conv2 [Call (QueueBuffers 7 [(0, 8), (1, 9)]), BufferReadyOutput 7]
     = Some conv2_half \<and>
   accepted conv2_half [(0, 10), (1, 11)] \<and>
   fst (queueBuffers hw_ok conv2_half 7 [(0, 10), (1, 11)]) = 0 \<and>
   queue (snd (queueBuffers hw_ok conv2_half 7 [(0, 10), (1, 11)])) 7 = Some 1"
proof -
  have "run owner_idle hw_ok conv2 [Call (QueueBuffers 7 [(0, 8), (1, 9)]), BufferReadyOutput 7]
          = Some conv2_half"
    by (simp only: run.simps step.simps perform.simps conv2_queueBuffers snd_conv option.case
        conv2_share)
  moreover have "queueBuffers hw_ok conv2_half 7 [(0, 10), (1, 11)] =
          (0, conv2_half\<lparr>hwlog := hwlog conv2_half @
                 [QueueBuffer 0 OutputQ 7, QueueBuffer 0 CaptureQ 10,
                  QueueBuffer 1 OutputQ 7, QueueBuffer 1 CaptureQ 11]\<rparr>)"
    using conv2_requeue by (simp add: queueBuffers_accepted emplace_def)
  ultimately show ?thesis using conv2_requeue by simp
qed

subsection \<open>Runs: what the functions leave alone, and what every run keeps\<close>

lemma configure_frame:
  assumes "configure hw c ic ocs = Some (r, c')"
  shows "queue c' = queue c" "emitted c' = emitted c"
  using assms by (auto simp add: configure_def split: option.splits prod.splits if_splits)

lemma configure_returns:
  "length ocs < 2 ^ 32 \<Longrightarrow> \<exists>r c'. configure hw c ic ocs = Some (r, c')"
  by (simp add: configure_eq split: prod.splits)


lemma stop_frame:
  "queue (stop c) = queue c" "emitted (stop c) = emitted c"
  "length (streams (stop c)) = length (streams c)"
  by (simp_all add: stop_def stop_loop_eq)

lemma start_loop_length:
  "start_loop hw pre ss log = (ret, ss', log') \<Longrightarrow> length ss' = length pre + length ss"
  by (induction ss arbitrary: pre log) (auto split: prod.splits if_splits)

lemma start_frame:
  "queue (snd (start hw c)) = queue c" "emitted (snd (start hw c)) = emitted c"
  "length (streams (snd (start hw c))) = length (streams c)"
  by (auto simp add: start_def stop_frame split: prod.splits dest: start_loop_length)

lemma queueBuffers_frame:
  "emitted (snd (queueBuffers hw c input outs)) = emitted c"
  "streams (snd (queueBuffers hw c input outs)) = streams c"
  by (simp_all add: queueBuffers_def split: prod.splits option.splits)

lemma queueBuffers_queue:
  "queue (snd (queueBuffers hw c input outs)) = queue c \<or>
   (accepted c outs \<and> queue c input = None \<and>
    queue (snd (queueBuffers hw c input outs)) = (queue c)(input \<mapsto> of_nat (length outs)))"
  by (auto simp add: queueBuffers_def accepted_def emplace_def split: prod.splits option.splits)


text \<open>
  A call of a public function emits nothing and leaves every entry of \<open>queue\<close> as it is;
  at most it adds an entry for a buffer that had none.
\<close>

lemma perform_frame:
  assumes "perform hw c x = Some c'"
  shows "emitted c' = emitted c \<and>
         (queue c' = queue c \<or>
          (\<exists>input outs. x = QueueBuffers input outs \<and> accepted c outs \<and> queue c input = None \<and>
             queue c' = (queue c)(input \<mapsto> of_nat (length outs))))"
proof (cases x)
  case (Configure ic ocs)
  with assms show ?thesis by (auto simp add: configure_frame)
next
  case Start
  with assms show ?thesis by (auto simp add: start_frame)
next
  case Stop
  with assms show ?thesis by (auto simp add: stop_frame)
next
  case (QueueBuffers input outs)
  with assms queueBuffers_queue [of hw c input outs] show ?thesis
    by (auto simp add: queueBuffers_frame)
qed

lemma perform_keeps:
  "perform hw c x = Some c' \<Longrightarrow> queue c b = Some n \<Longrightarrow> queue c' b = Some n"
  using perform_frame [of hw c x c'] by auto

lemma perform_all_frame:
  "perform_all hw c xs = Some c' \<Longrightarrow>
     emitted c' = emitted c \<and> (\<forall>b n. queue c b = Some n \<longrightarrow> queue c' b = Some n)"
proof (induction xs arbitrary: c)
  case Nil
  then show ?case by simp
next
  case (Cons x xs)
  then obtain c1 where 1: "perform hw c x = Some c1" and 2: "perform_all hw c1 xs = Some c'"
    by (auto split: option.splits)
  from Cons.IH [OF 2] perform_frame [OF 1] perform_keeps [OF 1] show ?case by metis
qed

lemma emit_frame:
  assumes "emit owner hw c sig = Some c'"
  shows "emitted c' = emitted c @ [sig]" "\<And>b n. queue c b = Some n \<Longrightarrow> queue c' b = Some n"
  using perform_all_frame [OF assms [unfolded emit_def]] by simp_all

text \<open>
  A call with well-formed arguments returns, keeps the stream vector shorter than \<open>2^32\<close>,
  and adds no entry with the count 0.
\<close>

lemma perform_returns: "wf_call x \<Longrightarrow> \<exists>c'. perform hw c x = Some c'"
  using configure_returns [of _ hw c] by (cases x) fastforce+


lemma perform_all_returns: "list_all wf_call xs \<Longrightarrow> \<exists>c'. perform_all hw c xs = Some c'"
proof (induction xs arbitrary: c)
  case Nil
  then show ?case by simp
next
  case (Cons x xs)
  then have "wf_call x" and rest: "list_all wf_call xs" by simp_all
  from perform_returns [OF this(1), of hw c] obtain c1 where "perform hw c x = Some c1" by blast
  with Cons.IH [OF rest, of c1] show ?case by simp
qed


lemma emit_returns: "wf_owner owner \<Longrightarrow> \<exists>c'. emit owner hw c sig = Some c'"
  by (simp add: emit_def wf_owner_def perform_all_returns)


lemma step_returns:
  assumes "wf_owner owner" and "wf_action a"
  shows "\<exists>c'. step owner hw c a = Some c'"
proof (cases a)
  case (Call x)
  with assms perform_returns [of x hw c] show ?thesis by simp
next
  case (BufferReadyOutput b)
  show ?thesis
  proof (cases "queue c b")
    case None
    with BufferReadyOutput show ?thesis by (simp add: Stream_outputBufferReady_def)
  next
    case (Some n)
    from emit_returns [OF assms(1), of hw "c\<lparr>queue := (queue c)(b \<mapsto> n - 1)\<rparr>" "InputBufferReady b"]
    obtain c2 where "emit owner hw (c\<lparr>queue := (queue c)(b \<mapsto> n - 1)\<rparr>) (InputBufferReady b) = Some c2"
      by blast
    with Some BufferReadyOutput show ?thesis
      by (cases "n - 1 = 0") (auto simp add: Stream_outputBufferReady_def)
  qed
next
  case (BufferReadyCapture b)
  with emit_returns [OF assms(1), of hw c "OutputBufferReady b"] show ?thesis
    by (simp add: Stream_captureBufferReady_def)
qed

lemma run_returns:
  "wf_owner owner \<Longrightarrow> list_all wf_action acts \<Longrightarrow> \<exists>c'. run owner hw c acts = Some c'"
proof (induction acts arbitrary: c)
  case Nil
  then show ?case by simp
next
  case (Cons a acts)
  then have "wf_action a" and rest: "list_all wf_action acts" by simp_all
  from step_returns [OF Cons.prems(1) this(1), of hw c] obtain c1
    where "step owner hw c a = Some c1" by blast
  with Cons.IH [OF Cons.prems(1) rest, of c1] show ?case by simp
qed




text \<open>Signals emitted and entries inserted.\<close>

lemma count_kept:
  assumes "consumed_count c' b = consumed_count c b" and "queue c b \<noteq> None \<Longrightarrow> queue c' b \<noteq> None"
  shows "consumed_count c' b + live c' b =
           consumed_count c b + live c b +
           (if queue c b = None \<and> queue c' b \<noteq> None then 1 else 0)"
  using assms by (auto simp add: live_def)

lemma emit_count:
  assumes "emit owner hw c sig = Some c'" and "sig \<noteq> InputBufferReady b"
  shows "consumed_count c' b = consumed_count c b"
  using emit_frame(1) [OF assms(1)] assms(2) by (simp add: consumed_count_def)

lemma step_count:
  assumes s: "step owner hw c a = Some c'"
  shows "consumed_count c' b + live c' b =
           consumed_count c b + live c b +
           (if queue c b = None \<and> queue c' b \<noteq> None then 1 else 0)"
proof (cases a)
  case (Call x)
  with s have p: "perform hw c x = Some c'" by simp
  from perform_frame [OF p] perform_keeps [OF p] show ?thesis
    by (intro count_kept) (auto simp add: consumed_count_def)
next
  case (BufferReadyCapture x)
  with s have e: "emit owner hw c (OutputBufferReady x) = Some c'"
    by (simp add: Stream_captureBufferReady_def)
  from emit_count [OF e] emit_frame(2) [OF e] show ?thesis
    by (intro count_kept) auto
next
  case (BufferReadyOutput x)
  with s have h: "Stream_outputBufferReady owner hw c x = Some c'" by simp
  show ?thesis
  proof (cases "queue c x")
    case None
    with h show ?thesis by (auto simp add: Stream_outputBufferReady_def live_def)
  next
    case (Some n)
    let ?c1 = "c\<lparr>queue := (queue c)(x \<mapsto> n - 1)\<rparr>"
    show ?thesis
    proof (cases "n - 1 = 0")
      case False
      with Some h have "c' = ?c1" by (simp add: Stream_outputBufferReady_def)
      with Some show ?thesis by (intro count_kept) (auto simp add: consumed_count_def)
    next
      case True
      with Some h obtain c2 where e: "emit owner hw ?c1 (InputBufferReady x) = Some c2"
        and c': "c' = c2\<lparr>queue := (queue c2)(x := None)\<rparr>"
        by (auto simp add: Stream_outputBufferReady_def split: option.splits)
      show ?thesis
      proof (cases "b = x")
        case True
        with emit_frame(1) [OF e] c' Some show ?thesis
          by (simp add: consumed_count_def live_def)
      next
        case False
        from emit_count [OF e, of b] False c'
        have 1: "consumed_count c' b = consumed_count c b" by (simp add: consumed_count_def)
        have 2: "queue c b \<noteq> None \<Longrightarrow> queue c' b \<noteq> None"
          using emit_frame(2) [OF e, of b] False c' by auto
        from 1 2 show ?thesis by (rule count_kept)
      qed
    qed
  qed
qed

lemma run_count:
  "run owner hw c acts = Some c' \<Longrightarrow>
     consumed_count c' b + live c' b = consumed_count c b + live c b + insertions owner hw c acts b"
proof (induction acts arbitrary: c)
  case Nil
  then show ?case by simp
next
  case (Cons a acts)
  then obtain c1 where 1: "step owner hw c a = Some c1" and 2: "run owner hw c1 acts = Some c'"
    by (auto split: option.splits)
  from Cons.IH [OF 2] step_count [OF 1, of b] 1 show ?case by simp
qed

subsection \<open>Runs: between the signals of one input buffer\<close>







lemma perform_not_queueing:
  assumes "queue c b = None" and "call_not_queueing b x" and "perform hw c x = Some c'"
  shows "queue c' b = None"
  using perform_frame [OF assms(3)] assms(1,2) by auto

lemma perform_all_not_queueing:
  "queue c b = None \<Longrightarrow> list_all (call_not_queueing b) xs \<Longrightarrow> perform_all hw c xs = Some c' \<Longrightarrow>
     queue c' b = None"
proof (induction xs arbitrary: c)
  case Nil
  then show ?case by simp
next
  case (Cons x xs)
  then obtain c1 where 1: "perform hw c x = Some c1" and 2: "perform_all hw c1 xs = Some c'"
    by (auto split: option.splits)
  from Cons.prems have "call_not_queueing b x" and rest: "list_all (call_not_queueing b) xs"
    by simp_all
  from perform_not_queueing [OF Cons.prems(1) this(1) 1] have "queue c1 b = None" .
  from Cons.IH [OF this rest 2] show ?case .
qed

lemma emit_not_queueing:
  assumes "queue c b = None" and "owner_not_queueing b owner" and "emit owner hw c sig = Some c'"
  shows "queue c' b = None"
proof -
  let ?c1 = "c\<lparr>emitted := emitted c @ [sig]\<rparr>"
  from assms(2) have l: "list_all (call_not_queueing b) (owner ?c1 sig)"
    by (simp add: owner_not_queueing_def)
  from assms(1) have "queue ?c1 b = None" by simp
  from perform_all_not_queueing [OF this l assms(3) [unfolded emit_def]] show ?thesis .
qed

lemma step_not_queueing:
  assumes q: "queue c b = None" and a: "not_queueing b a" and o: "owner_not_queueing b owner"
    and s: "step owner hw c a = Some c'"
  shows "queue c' b = None"
proof (cases a)
  case (Call x)
  with s a perform_not_queueing [OF q, of x hw c'] show ?thesis by simp
next
  case (BufferReadyCapture y)
  with s emit_not_queueing [OF q o, of hw "OutputBufferReady y" c'] show ?thesis
    by (simp add: Stream_captureBufferReady_def)
next
  case (BufferReadyOutput y)
  with s have h: "Stream_outputBufferReady owner hw c y = Some c'" by simp
  show ?thesis
  proof (cases "queue c y")
    case None
    with h q show ?thesis by (simp add: Stream_outputBufferReady_def)
  next
    case (Some m)
    with q have ne: "y \<noteq> b" by auto
    let ?c1 = "c\<lparr>queue := (queue c)(y \<mapsto> m - 1)\<rparr>"
    from q ne have q1: "queue ?c1 b = None" by simp
    show ?thesis
    proof (cases "m - 1 = 0")
      case False
      with Some h have "c' = ?c1" by (simp add: Stream_outputBufferReady_def)
      with q1 show ?thesis by simp
    next
      case True
      with Some h obtain c2 where e: "emit owner hw ?c1 (InputBufferReady y) = Some c2"
        and c': "c' = c2\<lparr>queue := (queue c2)(y := None)\<rparr>"
        by (auto simp add: Stream_outputBufferReady_def split: option.splits)
      from emit_not_queueing [OF q1 o e] c' show ?thesis by simp
    qed
  qed
qed

lemma insertions_zero:
  "list_all (not_queueing b) acts \<Longrightarrow> owner_not_queueing b owner \<Longrightarrow>
     insertions owner hw c acts b = 0"
proof (induction acts arbitrary: c)
  case Nil
  then show ?case by simp
next
  case (Cons a acts)
  then have a: "not_queueing b a" and rest: "list_all (not_queueing b) acts" by simp_all
  show ?case
  proof (cases "step owner hw c a")
    case None
    then show ?thesis by simp
  next
    case (Some c1)
    have "\<not> (queue c b = None \<and> queue c1 b \<noteq> None)"
    proof (cases "queue c b")
      case None
      from step_not_queueing [OF None a Cons.prems(2) Some] show ?thesis by simp
    next
      case (Some n)
      then show ?thesis by simp
    qed
    with Some Cons.IH [OF rest Cons.prems(2), of c1] show ?thesis by simp
  qed
qed

subsection \<open>Example runs\<close>

lemma emit_idle: "emit owner_idle hw c sig = Some (c\<lparr>emitted := emitted c @ [sig]\<rparr>)"
  by (simp add: emit_def owner_idle_def)


lemma wf_owner_requeue: "wf_owner owner_requeue"
  by (simp add: wf_owner_def owner_requeue_def)


lemma index_example [simp]: "index (started s) = index s" "index (stream_cfgd i oc) = i"
  by (simp_all add: started_def stream_cfgd_def)



subsection \<open>The fan-in of the completions\<close>







text \<open>
  C10: a call of \<open>queueBuffers\<close> that gets past the validation, with every stream accepting
  its buffers, for an input buffer that already has an entry in \<open>queue\<close>. The call returns
  0 and only the hardware log changes: \<open>queue\<close> is as before, the count of the entry is
  neither raised nor reset. From then on, as long as the input buffer is not queued yet
  another time, by a call of the run or by the owner in a slot, at most one
  input-consumed signal is emitted for it, for the two requests together. The run returns
  whenever the calls in it have well-formed arguments.
\<close>

theorem requeue_live_input:
  assumes acc: "accepted c outputs"
    and ok: "fst (queue_loop hw (streams c) input outputs (hwlog c)) = 0"
    and pending: "queue c input \<noteq> None"
  shows "queueBuffers hw c input outputs =
           (0, c\<lparr>hwlog := snd (queue_loop hw (streams c) input outputs (hwlog c))\<rparr>) \<and>
         queue (snd (queueBuffers hw c input outputs)) = queue c \<and>
         (\<forall>c2. owner_not_queueing input owner \<and> list_all (not_queueing input) acts \<and>
               run owner hw (snd (queueBuffers hw c input outputs)) acts = Some c2 \<longrightarrow>
            consumed_count c2 input \<le> consumed_count c input + 1) \<and>
         (wf_owner owner \<and> list_all wf_action acts \<longrightarrow>
            (\<exists>c2. run owner hw (snd (queueBuffers hw c input outputs)) acts = Some c2))"
proof -
  let ?c' = "c\<lparr>hwlog := snd (queue_loop hw (streams c) input outputs (hwlog c))\<rparr>"
  from ok pending have res: "queueBuffers hw c input outputs = (0, ?c')"
    by (cases "queue_loop hw (streams c) input outputs (hwlog c)")
       (auto simp add: queueBuffers_accepted [OF acc] emplace_def)
  have "consumed_count c2 input \<le> consumed_count c input + 1"
    if n: "list_all (not_queueing input) acts" and o: "owner_not_queueing input owner"
      and r: "run owner hw ?c' acts = Some c2" for c2
  proof -
    from run_count [OF r, of input] insertions_zero [OF n o, of hw ?c']
    have "consumed_count c2 input + live c2 input
            = consumed_count ?c' input + live ?c' input" by simp
    moreover have "consumed_count ?c' input = consumed_count c input" "live ?c' input \<le> 1"
      by (simp_all add: consumed_count_def live_def)
    ultimately show ?thesis by linarith
  qed
  moreover have "\<exists>c2. run owner hw ?c' acts = Some c2"
    if "wf_owner owner \<and> list_all wf_action acts"
    using that run_returns [of owner acts hw ?c'] by simp
  ultimately show ?thesis using res by simp
qed

text \<open>
  Buffer 7 is queued again while one share of it is outstanding: the entry keeps the count
  1, and three further share-done signals give one input-consumed signal.
\<close>

theorem requeue_live_input_witness:
  "queueBuffers hw_ok conv2_half 7 [(0, 10), (1, 11)] =
     (0, conv2_half\<lparr>hwlog := hwlog conv2_half @
            [QueueBuffer 0 OutputQ 7, QueueBuffer 0 CaptureQ 10,
             QueueBuffer 1 OutputQ 7, QueueBuffer 1 CaptureQ 11]\<rparr>) \<and>
   queue (snd (queueBuffers hw_ok conv2_half 7 [(0, 10), (1, 11)])) = [7 \<mapsto> 1] \<and>
   owner_not_queueing 7 owner_idle \<and>
   map_option (\<lambda>c. consumed_count c 7)
     (run owner_idle hw_ok (snd (queueBuffers hw_ok conv2_half 7 [(0, 10), (1, 11)]))
        [BufferReadyOutput 7, BufferReadyOutput 7, BufferReadyOutput 7]) = Some 1 \<and>
   (1 :: nat) \<le> 0 + 1"
proof -
  let ?D = "[BufferReadyOutput 7, BufferReadyOutput 7, BufferReadyOutput 7]"
  from conv2_requeue have h: "accepted conv2_half [(0, 10), (1, 11)]"
    "fst (queue_loop hw_ok (streams conv2_half) 7 [(0, 10), (1, 11)] (hwlog conv2_half)) = 0"
    "queue conv2_half 7 \<noteq> None" by simp_all
  have n: "list_all (not_queueing 7) ?D" by simp
  have o: "owner_not_queueing 7 owner_idle" by (simp add: owner_not_queueing_def owner_idle_def)
  note t = requeue_live_input [OF h, of owner_idle ?D]
  from t have r: "queueBuffers hw_ok conv2_half 7 [(0, 10), (1, 11)] =
             (0, conv2_half\<lparr>hwlog :=
                snd (queue_loop hw_ok (streams conv2_half) 7 [(0, 10), (1, 11)] (hwlog conv2_half))\<rparr>)"
    and q: "queue (snd (queueBuffers hw_ok conv2_half 7 [(0, 10), (1, 11)])) = queue conv2_half"
    by blast+
  from conv2_requeue r have r': "queueBuffers hw_ok conv2_half 7 [(0, 10), (1, 11)] =
     (0, conv2_half\<lparr>hwlog := hwlog conv2_half @
            [QueueBuffer 0 OutputQ 7, QueueBuffer 0 CaptureQ 10,
             QueueBuffer 1 OutputQ 7, QueueBuffer 1 CaptureQ 11]\<rparr>)" by simp
  have v: "queue conv2_half = [7 \<mapsto> 1]" "consumed_count conv2_half 7 = 0"
    by (simp_all add: consumed_count_def conv2_half_def conv2_queued_def conv2_def)
  have e: "map_option (\<lambda>c. consumed_count c 7)
     (run owner_idle hw_ok (snd (queueBuffers hw_ok conv2_half 7 [(0, 10), (1, 11)])) ?D) = Some 1"
    unfolding r' by (simp add: Stream_outputBufferReady_def emit_idle consumed_count_def
        conv2_half_def conv2_queued_def conv2_def)
  then obtain c2 where
    r2: "run owner_idle hw_ok (snd (queueBuffers hw_ok conv2_half 7 [(0, 10), (1, 11)])) ?D = Some c2"
    and c2: "consumed_count c2 7 = 1" by auto
  from t o n r2 have "consumed_count c2 7 \<le> consumed_count conv2_half 7 + 1" by blast
  with c2 v have "(1 :: nat) \<le> 0 + 1" by simp
  with r' q v o e show ?thesis by simp
qed

end
